theory Spec2Isabelle
  imports Complex_Main "HOL-Library.Word" "HOL-Library.Log_Nat"
begin

unbundle bit_operations_syntax

section \<open>The live conversation component (src/components/LiveFeature.tsx)\<close>

text \<open>
  The component keeps React state (\<open>isRecording\<close>, \<open>error\<close>, \<open>conversationHistory\<close>),
  two refs (\<open>sessionPromiseRef\<close>, \<open>audioResourcesRef\<close>) and, per call of
  \<open>startLiveConversation\<close>, a closure with the two transcription buffers, the playback
  clock \<open>nextStartTime\<close> and the locally held stream and audio contexts. Every callback runs
  on the one event-loop thread. An async callback runs in pieces, from its entry to its
  \<open>await\<close> and from the settling of the awaited promise to its end, and other callbacks
  may run between the pieces. Each piece is a function from state to state. What it does to
  the browser and to the remote session is appended to a trace of effects.

  The record \<open>live\<close> below holds the component together with the closure of one call of
  \<open>startLiveConversation\<close>, the call whose callbacks are being followed; several calls,
  each with a closure of its own, make the \<open>world\<close> further down. The field
  \<open>isRecording\<close> is the React state as last set. The value a handler reads is the one its
  render captured, a constant of the handler, and is passed in where it is read.
\<close>

subsection \<open>JavaScript numbers\<close>

text \<open>
  A time is a JavaScript number, an IEEE 754 double, taken here as the real it denotes:
  \<open>m * 2^(e - 52)\<close> for an integer \<open>m\<close> of magnitude below \<open>2^53\<close> and an exponent
  \<open>e\<close> from -1022 on. The \<open>exponent\<close> of a real is the \<open>e\<close> with
  \<open>2^e \<le> |x| < 2^(e + 1)\<close>, and -1022 below that range, where the doubles are
  subnormal; the \<open>quantum\<close> is the distance between neighbouring doubles there. An
  operation returns its exact result rounded to the nearest multiple of the quantum, a tie
  to the even multiple. NaN, the infinities and overflow past the largest double are left
  out.
\<close>

definition exponent :: "real \<Rightarrow> int" where
  "exponent x = max (bitlen \<lfloor>\<bar>x\<bar> * 2 ^ 1074\<rfloor> - 1075) (- 1022)"

definition quantum :: "real \<Rightarrow> real" where
  "quantum x = 2 powi (exponent x - 52)"

definition roundHalfEven :: "real \<Rightarrow> int" where
  "roundHalfEven y =
     (let n = \<lfloor>y\<rfloor>
      in if y - of_int n < 1 / 2 then n
         else if 1 / 2 < y - of_int n then n + 1
         else if even n then n else n + 1)"

definition toDouble :: "real \<Rightarrow> real" where
  "toDouble x = quantum x * of_int (roundHalfEven (x / quantum x))"

text \<open>The \<open>+\<close> of two numbers, and a real that is a double.\<close>

definition doubleAdd :: "real \<Rightarrow> real \<Rightarrow> real" where
  "doubleAdd a b = toDouble (a + b)"

definition isDouble :: "real \<Rightarrow> bool" where
  "isDouble a = (toDouble a = a)"

subsection \<open>Data\<close>

text \<open>A thrown or rejected value; only its \<open>message\<close> property is ever read.\<close>

datatype js_error = JsError (message: "string option")

text \<open>Template-literal conversion of a possibly undefined string.\<close>

definition js_string :: "string option \<Rightarrow> string" where
  "js_string m = (case m of None \<Rightarrow> ''undefined'' | Some t \<Rightarrow> t)"

text \<open>One element of \<open>conversationHistory\<close>: \<open>{user: string, model: string}\<close>.\<close>

record turn =
  user :: string
  model :: string

text \<open>
  An \<open>AudioContext\<close> with the \<open>state\<close> it is read with. \<open>close()\<close> is asynchronous: the
  state turns \<open>closed\<close> only later, which the model does not follow.
\<close>

datatype contextState = Suspended | Running | Closed

record audioContext =
  ctxId :: nat
  sampleRate :: nat
  state :: contextState

record mediaStream =
  tracks :: "nat list"

record audioResources =
  inputCtx :: audioContext
  outputCtx :: audioContext
  stream :: mediaStream
  processor :: nat

text \<open>The \<open>Blob\<close> sent to the session: base64 data and a MIME type.\<close>

record blob =
  data :: string
  mimeType :: string

text \<open>
  An \<open>AudioBuffer\<close>: its sample rate, one sample list per channel, its length in seconds
  (a number).
\<close>

record audioBuffer =
  bufferRate :: nat
  channelData :: "real list list"
  duration :: real

text \<open>
  A \<open>LiveServerMessage\<close> as far as \<open>onmessage\<close> reads it. A transcription is present or
  not and carries its \<open>text\<close>; \<open>modelTurn\<close> is present or not, its \<open>parts\<close> array is
  present or not, and a part carries \<open>inlineData?.data\<close> or nothing.
\<close>

datatype part = Part (inlineData: "string option")

datatype content = Content (parts: "part list option")

record serverContent =
  outputTranscription :: "string option"
  inputTranscription :: "string option"
  turnComplete :: bool
  modelTurn :: "content option"

record liveServerMessage =
  serverContent :: "serverContent option"

text \<open>
  The trace: acquisitions, the registrations on the session promise
  (\<open>then(session => session.close())\<close>, \<open>then(session => session.sendRealtimeInput(..))\<close>),
  the releases of \<open>stopLiveConversation\<close>, \<open>source.start\<close>, \<open>console.error\<close>, and the
  rejection of the promise an async callback returns.
\<close>

datatype effect =
    MicAcquired mediaStream
  | ContextCreated audioContext
  | Connected nat
  | SessionClose nat
  | ProcessorDisconnect nat
  | TrackStop nat
  | ContextClose nat
  | SendRealtimeInput nat blob
  | SourceStart real audioBuffer
  | ConsoleError js_error
  | Rejected js_error

text \<open>The constants a successful \<open>startLiveConversation\<close> holds for its callbacks.\<close>

record startLocals =
  localStream :: mediaStream
  inputAudioContext :: audioContext
  outputAudioContext :: audioContext

record live =
  isRecording :: bool
  error :: "string option"
  conversationHistory :: "turn list"
  sessionPromiseRef :: "nat option"
  audioResourcesRef :: "audioResources option"
  currentInputTranscription :: string
  currentOutputTranscription :: string
  nextStartTime :: real
  locals :: "startLocals option"
  effects :: "effect list"

text \<open>The component as mounted: \<open>useState\<close> and \<open>useRef\<close> initial values.\<close>

definition mounted :: live where
  "mounted = \<lparr> isRecording = False, error = None, conversationHistory = [],
     sessionPromiseRef = None, audioResourcesRef = None,
     currentInputTranscription = [], currentOutputTranscription = [],
     nextStartTime = 0, locals = None, effects = [] \<rparr>"

definition emit :: "effect list \<Rightarrow> live \<Rightarrow> live" where
  "emit es s = s\<lparr> effects := effects s @ es \<rparr>"

subsection \<open>stopLiveConversation (lines 20-37)\<close>

text \<open>
  The effects of the first \<open>if\<close>: the close is registered on the promise, with its
  rejection caught. The effects of the second: disconnect, one stop per track, and each
  context closed unless its state is already \<open>closed\<close>.
\<close>

definition sessionRelease :: "nat option \<Rightarrow> effect list" where
  "sessionRelease r = (case r of None \<Rightarrow> [] | Some p \<Rightarrow> [SessionClose p])"

definition closeUnlessClosed :: "audioContext \<Rightarrow> effect list" where
  "closeUnlessClosed c = (if state c \<noteq> Closed then [ContextClose (ctxId c)] else [])"

definition audioRelease :: "audioResources option \<Rightarrow> effect list" where
  "audioRelease r = (case r of None \<Rightarrow> []
     | Some a \<Rightarrow> ProcessorDisconnect (processor a) # map TrackStop (tracks (stream a))
         @ closeUnlessClosed (inputCtx a) @ closeUnlessClosed (outputCtx a))"

definition releases :: "live \<Rightarrow> effect list" where
  "releases s = sessionRelease (sessionPromiseRef s) @ audioRelease (audioResourcesRef s)"

definition stopLiveConversation :: "live \<Rightarrow> live" where
  "stopLiveConversation s =
     (let s1 = (emit (sessionRelease (sessionPromiseRef s)) s)\<lparr> sessionPromiseRef := None \<rparr>;
          s2 = (emit (audioRelease (audioResourcesRef s1)) s1)\<lparr> audioResourcesRef := None \<rparr>
      in s2\<lparr> isRecording := False \<rparr>)"

subsection \<open>startLiveConversation (lines 45-144)\<close>

text \<open>
  What the browser and the SDK answer to one call: \<open>getUserMedia\<close> resolves to a stream
  or rejects, the \<open>AudioContext\<close> constructor returns a context for a sample rate or
  throws, and \<open>getLiveSession().connect(..)\<close> returns the session promise or throws. The
  promise is stored, never awaited, so a later rejection of it is not seen here.
\<close>

record startEnv =
  getUserMedia :: "js_error + mediaStream"
  newAudioContext :: "nat \<Rightarrow> js_error + audioContext"
  connect :: "js_error + nat"

text \<open>The \<open>catch\<close> block (lines 140-143).\<close>

definition startFailed :: "js_error \<Rightarrow> live \<Rightarrow> live" where
  "startFailed e s =
     s\<lparr> error := Some (''Failed to start conversation: '' @ js_string (message e)),
        isRecording := False \<rparr>"

text \<open>
  Lines 47-53, for a call that has passed the guard: the three state setters and the fresh
  variables of the closure. The call then awaits \<open>getUserMedia\<close> (line 56).
\<close>

definition startEntry :: "live \<Rightarrow> live" where
  "startEntry s =
     s\<lparr> error := None, isRecording := True, conversationHistory := [],
        currentInputTranscription := [], currentOutputTranscription := [],
        nextStartTime := 0, locals := None \<rparr>"

text \<open>
  Lines 56-64 and the \<open>catch\<close>, from the settling of \<open>getUserMedia\<close> to the end of the
  call. Nothing here looks at what happened while the call was suspended.
\<close>

definition startResume :: "startEnv \<Rightarrow> live \<Rightarrow> live" where
  "startResume env s0 =
     (case getUserMedia env of
        Inl e \<Rightarrow> startFailed e s0
      | Inr st \<Rightarrow>
          (let s1 = emit [MicAcquired st] s0
           in (case newAudioContext env 16000 of
                 Inl e \<Rightarrow> startFailed e s1
               | Inr ic \<Rightarrow>
                   (let s2 = emit [ContextCreated ic] s1
                    in (case newAudioContext env 24000 of
                          Inl e \<Rightarrow> startFailed e s2
                        | Inr oc \<Rightarrow>
                            (let s3 = emit [ContextCreated oc] s2
                             in (case connect env of
                                   Inl e \<Rightarrow> startFailed e s3
                                 | Inr p \<Rightarrow>
                                     (emit [Connected p] s3)
                                       \<lparr> sessionPromiseRef := Some p,
                                         locals := Some \<lparr> localStream = st,
                                           inputAudioContext = ic,
                                           outputAudioContext = oc \<rparr> \<rparr>)))))))"

text \<open>
  The call with nothing placed between its entry and its end, through a handler whose render
  captured \<open>isRecording\<close> as \<open>captured\<close>. Line 46 tests that constant, not the state.
\<close>

definition startCall :: "bool \<Rightarrow> startEnv \<Rightarrow> live \<Rightarrow> live" where
  "startCall captured env s = (if captured then s else startResume env (startEntry s))"

text \<open>
  The same through the handler of the latest render, which captured the flag as it is.
\<close>

definition startLiveConversation :: "startEnv \<Rightarrow> live \<Rightarrow> live" where
  "startLiveConversation env s = startCall (isRecording s) env s"

subsection \<open>The session callbacks\<close>

text \<open>\<open>onopen\<close> (lines 67-95); the argument is the script processor the context creates.\<close>

definition onopen :: "nat \<Rightarrow> live \<Rightarrow> live" where
  "onopen scriptProcessor s =
     (case locals s of
        None \<Rightarrow> s
      | Some l \<Rightarrow>
          s\<lparr> audioResourcesRef := Some \<lparr> inputCtx = inputAudioContext l,
                 outputCtx = outputAudioContext l, stream = localStream l,
                 processor = scriptProcessor \<rparr> \<rparr>)"

text \<open>
  \<open>onmessage\<close>, the transcription part (lines 97-109): the output delta, the input delta,
  then the turn completion, in this order.
\<close>

definition appendOutput :: "liveServerMessage \<Rightarrow> live \<Rightarrow> live" where
  "appendOutput m s =
     (case serverContent m of
        None \<Rightarrow> s
      | Some sc \<Rightarrow>
          (case outputTranscription sc of
             None \<Rightarrow> s
           | Some t \<Rightarrow> s\<lparr> currentOutputTranscription := currentOutputTranscription s @ t \<rparr>))"

definition appendInput :: "liveServerMessage \<Rightarrow> live \<Rightarrow> live" where
  "appendInput m s =
     (case serverContent m of
        None \<Rightarrow> s
      | Some sc \<Rightarrow>
          (case inputTranscription sc of
             None \<Rightarrow> s
           | Some t \<Rightarrow> s\<lparr> currentInputTranscription := currentInputTranscription s @ t \<rparr>))"

definition isTurnComplete :: "liveServerMessage \<Rightarrow> bool" where
  "isTurnComplete m = (case serverContent m of None \<Rightarrow> False | Some sc \<Rightarrow> turnComplete sc)"

definition completeTurn :: "liveServerMessage \<Rightarrow> live \<Rightarrow> live" where
  "completeTurn m s =
     (if isTurnComplete m
      then s\<lparr> conversationHistory := conversationHistory s
                 @ [\<lparr> user = currentInputTranscription s,
                       model = currentOutputTranscription s \<rparr>],
              currentInputTranscription := [],
              currentOutputTranscription := [] \<rparr>
      else s)"

definition transcribe :: "liveServerMessage \<Rightarrow> live \<Rightarrow> live" where
  "transcribe m s = completeTurn m (appendInput m (appendOutput m s))"

text \<open>
  Line 111: \<open>message.serverContent?.modelTurn?.parts[0]?.inlineData?.data\<close>. The index
  is not optional: a \<open>modelTurn\<close> without \<open>parts\<close> throws a TypeError.
\<close>

definition audioDataOf :: "liveServerMessage \<Rightarrow> js_error + string option" where
  "audioDataOf m =
     (case serverContent m of
        None \<Rightarrow> Inr None
      | Some sc \<Rightarrow>
          (case modelTurn sc of
             None \<Rightarrow> Inr None
           | Some c \<Rightarrow>
               (case parts c of
                  None \<Rightarrow> Inl (JsError (Some ''Cannot read properties of undefined''))
                | Some [] \<Rightarrow> Inr None
                | Some (p # ps) \<Rightarrow> Inr (inlineData p))))"

text \<open>
  Lines 112-114, up to the \<open>await\<close>: the guard (a non-empty string and a non-null
  \<open>audioResourcesRef.current\<close>) and the clock raised to the device time \<open>now\<close>. The
  result says which data is being decoded, if any.
\<close>

definition playbackHead :: "real \<Rightarrow> liveServerMessage \<Rightarrow> live \<Rightarrow> live \<times> string option" where
  "playbackHead now m s =
     (case audioDataOf m of
        Inl e \<Rightarrow> (emit [Rejected e] s, None)
      | Inr None \<Rightarrow> (s, None)
      | Inr (Some a) \<Rightarrow>
          if a \<noteq> [] \<and> audioResourcesRef s \<noteq> None
          then (s\<lparr> nextStartTime := max (nextStartTime s) now \<rparr>, Some a)
          else (s, None))"

text \<open>
  Lines 115-120, after the \<open>await\<close>: a rejected decode rejects the callback; a decoded
  buffer is started at \<open>nextStartTime\<close>, as it is then, and the clock advances by the
  \<open>+=\<close> of two numbers.
\<close>

definition playbackTail :: "js_error + audioBuffer \<Rightarrow> live \<Rightarrow> live" where
  "playbackTail r s =
     (case r of
        Inl e \<Rightarrow> emit [Rejected e] s
      | Inr b \<Rightarrow>
          (emit [SourceStart (nextStartTime s) b] s)
            \<lparr> nextStartTime := doubleAdd (nextStartTime s) (duration b) \<rparr>)"

text \<open>
  The whole callback when its decode settles before any other callback runs, with
  \<open>decodeAudioData(decode(..), outCtx, 24000, 1)\<close> of utils/media as the parameter
  \<open>dec\<close>. The transcription part (lines 97-109) lies before the \<open>await\<close> and is the
  same however the decode settles; the two halves of the playback part are taken apart in
  the runs below.
\<close>

definition onmessage ::
  "(string \<Rightarrow> js_error + audioBuffer) \<Rightarrow> real \<Rightarrow> liveServerMessage \<Rightarrow> live \<Rightarrow> live" where
  "onmessage dec now m s =
     (case playbackHead now m (transcribe m s) of
        (s1, None) \<Rightarrow> s1
      | (s1, Some a) \<Rightarrow> playbackTail (dec a) s1)"

text \<open>\<open>onerror\<close> (lines 123-127) and \<open>onclose\<close> (lines 128-130).\<close>

definition onerror :: "js_error \<Rightarrow> live \<Rightarrow> live" where
  "onerror e s =
     stopLiveConversation
       (emit [ConsoleError e]
         (s\<lparr> error := Some (''Live connection error: '' @
             (case message e of
                None \<Rightarrow> ''An unknown error occurred''
              | Some t \<Rightarrow> if t = [] then ''An unknown error occurred'' else t)) \<rparr>))"

definition onclose :: "live \<Rightarrow> live" where
  "onclose s = stopLiveConversation s"

section \<open>The audio codec\<close>

subsection \<open>Float samples to 16-bit PCM (onaudioprocess, lines 79-84)\<close>

text \<open>
  \<open>int16[i] = inputData[i] * 32768\<close> stores a number into an \<open>Int16Array\<close>: the number
  is truncated towards zero and reduced modulo \<open>2^16\<close>; the element read back is the signed
  value of those 16 bits. Scaling a float32 sample by a power of two is exact, so the
  samples are reals here.
\<close>

definition jsTruncate :: "real \<Rightarrow> int" where
  "jsTruncate x = (if x < 0 then \<lceil>x\<rceil> else \<lfloor>x\<rfloor>)"

definition toInt16 :: "real \<Rightarrow> 16 word" where
  "toInt16 x = word_of_int (jsTruncate x)"

text \<open>An integer taken modulo \<open>2^16\<close> and read as a signed 16-bit value.\<close>

definition wrapInt16 :: "int \<Rightarrow> int" where
  "wrapInt16 k = (let u = k mod 65536 in if u < 32768 then u else u - 65536)"

definition pcm16 :: "real list \<Rightarrow> 16 word list" where
  "pcm16 inputData = map (\<lambda>x. toInt16 (x * 32768)) inputData"

text \<open>
  \<open>new Uint8Array(int16.buffer)\<close>: two bytes per element in the byte order of the
  platform, taken as little-endian (the low byte first), as the spec has it.
\<close>

definition int16Bytes :: "16 word \<Rightarrow> 8 word list" where
  "int16Bytes w = [ucast w, ucast (drop_bit 8 w)]"

definition uint8View :: "16 word list \<Rightarrow> 8 word list" where
  "uint8View ws = concat (map int16Bytes ws)"

subsection \<open>Base64 (encode and decode of utils/media)\<close>

text \<open>
  Modelled from the spec: utils/media is not among the sources, and the spec says only
  that frames are base64-encoded and segments base64-decoded. The alphabet, the value of a
  character and the padding are those of standard base64.
\<close>

definition base64Alphabet :: string where
  "base64Alphabet = ''ABCDEFGHIJKLMNOPQRSTUVWXYZabcdefghijklmnopqrstuvwxyz0123456789+/''"

definition base64Char :: "nat \<Rightarrow> char" where
  "base64Char n = base64Alphabet ! (n mod 64)"

fun indexOf :: "'a \<Rightarrow> 'a list \<Rightarrow> nat option" where
  "indexOf x [] = None"
| "indexOf x (y # ys) = (if x = y then Some 0 else map_option Suc (indexOf x ys))"

definition base64Value :: "char \<Rightarrow> nat option" where
  "base64Value c = indexOf c base64Alphabet"

text \<open>
  Modelled from the spec: \<open>encode\<close> of utils/media is not among the sources; the spec says
  the packed bytes are base64-encoded. Three bytes give four characters of the standard
  alphabet, six bits each; a last group of one or two bytes is padded with \<open>=\<close>.
\<close>

fun encode :: "8 word list \<Rightarrow> string" where
  "encode (a # b # c # bs) =
     [base64Char (unat a div 4),
      base64Char (unat a mod 4 * 16 + unat b div 16),
      base64Char (unat b mod 16 * 4 + unat c div 64),
      base64Char (unat c mod 64)] @ encode bs"
| "encode [a, b] =
     [base64Char (unat a div 4),
      base64Char (unat a mod 4 * 16 + unat b div 16),
      base64Char (unat b mod 16 * 4),
      CHR ''='']"
| "encode [a] =
     [base64Char (unat a div 4),
      base64Char (unat a mod 4 * 16),
      CHR ''='', CHR ''='']"
| "encode [] = []"

definition invalidCharacter :: js_error where
  "invalidCharacter = JsError (Some ''The string to be decoded is not correctly encoded.'')"

text \<open>
  Modelled from the spec: \<open>decode\<close> of utils/media is not among the sources; the spec says
  the inbound data is base64-decoded. Groups of four characters give three bytes, a last
  group ending in \<open>=\<close> or \<open>==\<close> gives two bytes or one; anything else is an error.
\<close>

fun decode :: "string \<Rightarrow> js_error + 8 word list" where
  "decode [] = Inr []"
| "decode (c1 # c2 # c3 # c4 # cs) =
     (case (base64Value c1, base64Value c2) of
        (Some v1, Some v2) \<Rightarrow>
          if cs = [] \<and> c3 = CHR ''='' \<and> c4 = CHR ''=''
          then Inr [of_nat (v1 * 4 + v2 div 16)]
          else
            (case base64Value c3 of
               None \<Rightarrow> Inl invalidCharacter
             | Some v3 \<Rightarrow>
                 if cs = [] \<and> c4 = CHR ''=''
                 then Inr [of_nat (v1 * 4 + v2 div 16), of_nat (v2 mod 16 * 16 + v3 div 4)]
                 else
                   (case base64Value c4 of
                      None \<Rightarrow> Inl invalidCharacter
                    | Some v4 \<Rightarrow>
                        (case decode cs of
                           Inl e \<Rightarrow> Inl e
                         | Inr bs \<Rightarrow>
                             Inr (of_nat (v1 * 4 + v2 div 16)
                                  # of_nat (v2 mod 16 * 16 + v3 div 4)
                                  # of_nat (v3 mod 4 * 64 + v4) # bs))))
      | _ \<Rightarrow> Inl invalidCharacter)"
| "decode _ = Inl invalidCharacter"

subsection \<open>The outbound frame (lines 85-88)\<close>

definition pcmBlob :: "real list \<Rightarrow> blob" where
  "pcmBlob inputData =
     \<lparr> data = encode (uint8View (pcm16 inputData)), mimeType = ''audio/pcm;rate=16000'' \<rparr>"

subsection \<open>Decoding an inbound segment\<close>

text \<open>
  Modelled from the spec: the bytes reinterpreted as 16-bit signed PCM, the low byte
  first, as an \<open>Int16Array\<close> over the buffer reads them; utils/media, which does it, is
  not among the sources. A byte length that is not even is a RangeError.
\<close>

fun int16View :: "8 word list \<Rightarrow> js_error + 16 word list" where
  "int16View [] = Inr []"
| "int16View [b] =
     Inl (JsError (Some ''byte length of Int16Array should be a multiple of 2''))"
| "int16View (lo # hi # bs) =
     (case int16View bs of
        Inl e \<Rightarrow> Inl e
      | Inr ws \<Rightarrow> Inr ((ucast lo OR push_bit 8 (ucast hi)) # ws))"

text \<open>
  Modelled from the spec: \<open>decodeAudioData\<close> of utils/media is not among the sources; the
  spec says the bytes are reinterpreted as 16-bit signed PCM and rescaled by dividing by
  32768 into a multi-channel buffer. The samples of the channels are interleaved.
\<close>

definition decodeAudioData :: "8 word list \<Rightarrow> nat \<Rightarrow> nat \<Rightarrow> js_error + audioBuffer" where
  "decodeAudioData bytes rate numChannels =
     (case int16View bytes of
        Inl e \<Rightarrow> Inl e
      | Inr ws \<Rightarrow>
          (let frameCount = length ws div numChannels
           in Inr \<lparr> bufferRate = rate,
                    channelData =
                      map (\<lambda>c. map (\<lambda>i. real_of_int (sint (ws ! (i * numChannels + c))) / 32768)
                                 [0..<frameCount])
                          [0..<numChannels],
                    duration = real frameCount / real rate \<rparr>))"

text \<open>The spec's \<open>decodeSegment\<close>: \<open>decodeAudioData(decode(b64), ctx, sampleRate, channels)\<close>.\<close>

definition decodeSegment :: "string \<Rightarrow> nat \<Rightarrow> nat \<Rightarrow> js_error + audioBuffer" where
  "decodeSegment b64 rate numChannels =
     (case decode b64 of
        Inl e \<Rightarrow> Inl e
      | Inr bytes \<Rightarrow> decodeAudioData bytes rate numChannels)"

subsection \<open>The capture callback (lines 78-92)\<close>

text \<open>
  \<open>sessionPromiseRef.current?.then(session => session.sendRealtimeInput({media: pcmBlob}))\<close>:
  nothing is registered when the ref is null.
\<close>

definition onaudioprocess :: "real list \<Rightarrow> live \<Rightarrow> live" where
  "onaudioprocess inputData s =
     (case sessionPromiseRef s of
        None \<Rightarrow> s
      | Some p \<Rightarrow> emit [SendRealtimeInput p (pcmBlob inputData)] s)"

section \<open>Runs and observations\<close>

text \<open>
  Inbound messages handled one after the other in arrival order, each with the device time
  it meets and each decode settling before the next message arrives.
\<close>

definition processMessages ::
  "(string \<Rightarrow> js_error + audioBuffer) \<Rightarrow> (real \<times> liveServerMessage) list \<Rightarrow> live \<Rightarrow> live" where
  "processMessages dec ms s = foldl (\<lambda>s' nm. onmessage dec (fst nm) (snd nm) s') s ms"

subsection \<open>The playback path with its decodes pending\<close>

text \<open>
  The two halves of \<open>onmessage\<close> as events of their own. When a message arrives the
  callback runs up to its \<open>await\<close> (line 115) and, if it got that far, its data joins
  the decodes that are pending. When the pending decode at position \<open>k\<close> settles, its
  callback runs from line 116 to the end. Which pending decode settles next is up to
  \<open>decodeAudioData\<close> of utils/media, so a run may settle them in any order.
\<close>

datatype playbackEvent = Arrives real liveServerMessage | Settles nat

fun playbackStep ::
  "(string \<Rightarrow> js_error + audioBuffer) \<Rightarrow> playbackEvent \<Rightarrow> live \<times> string list
     \<Rightarrow> live \<times> string list" where
  "playbackStep dec (Arrives now m) (s, pending) =
     (case playbackHead now m (transcribe m s) of
        (s1, None) \<Rightarrow> (s1, pending)
      | (s1, Some a) \<Rightarrow> (s1, pending @ [a]))"
| "playbackStep dec (Settles k) (s, pending) =
     (if k < length pending
      then (playbackTail (dec (pending ! k)) s, take k pending @ drop (Suc k) pending)
      else (s, pending))"

definition playbackRun ::
  "(string \<Rightarrow> js_error + audioBuffer) \<Rightarrow> playbackEvent list \<Rightarrow> live \<times> string list
     \<Rightarrow> live \<times> string list" where
  "playbackRun dec evs c = foldl (\<lambda>c' ev. playbackStep dec ev c') c evs"

text \<open>The device time an arriving message meets is a number.\<close>

fun clocked :: "playbackEvent \<Rightarrow> bool" where
  "clocked (Arrives now m) = isDouble now"
| "clocked (Settles k) = True"

subsection \<open>Several calls of startLiveConversation\<close>

text \<open>
  The variables of one call: the two buffers, the clock, and the stream and contexts once
  they are held. The callbacks the call hands to \<open>connect\<close> see these and the component.
\<close>

record callFrame =
  inputText :: string
  outputText :: string
  clock :: real
  held :: "startLocals option"

definition frameOf :: "live \<Rightarrow> callFrame" where
  "frameOf s =
     \<lparr> inputText = currentInputTranscription s, outputText = currentOutputTranscription s,
       clock = nextStartTime s, held = locals s \<rparr>"

definition enter :: "callFrame \<Rightarrow> live \<Rightarrow> live" where
  "enter c s =
     s\<lparr> currentInputTranscription := inputText c, currentOutputTranscription := outputText c,
        nextStartTime := clock c, locals := held c \<rparr>"

text \<open>
  The component, the frames of the calls that passed the guard, in call order, and the
  calls that are suspended at \<open>await getUserMedia\<close>. The closure fields of \<open>component\<close>
  are those of the call that ran last and are not read: a piece of call \<open>k\<close> runs on the
  component with frame \<open>k\<close> entered, and leaves the frame behind as it is then.
\<close>

record world =
  component :: live
  frames :: "callFrame list"
  awaiting :: "nat list"

definition inCall :: "nat \<Rightarrow> (live \<Rightarrow> live) \<Rightarrow> world \<Rightarrow> world" where
  "inCall k f w =
     (if k < length (frames w)
      then
        (let s = f (enter (frames w ! k) (component w))
         in w\<lparr> component := s, frames := (frames w)[k := frameOf s] \<rparr>)
      else w)"

text \<open>
  What can happen to the mounted component. \<open>StartCalled captured\<close> is a call of
  \<open>startLiveConversation\<close> through a handler whose render captured \<open>isRecording\<close> as
  \<open>captured\<close>: it returns at line 46, or runs to line 56 and is suspended. \<open>MicSettles k env\<close>
  resumes the suspended call \<open>k\<close>, which runs to its end. \<open>StopCalled\<close> is the stop
  button or the unmount. \<open>Opened\<close>, \<open>Message\<close>, \<open>Errored\<close> and \<open>Ended\<close> are the callbacks
  of the session of call \<open>k\<close> (\<open>Message\<close> with its decode settling at once), and
  \<open>Captured\<close> is \<open>onaudioprocess\<close>, which reads nothing of its closure but the frame
  data and may come at any time.
\<close>

datatype action =
    StartCalled bool
  | MicSettles nat startEnv
  | StopCalled
  | Opened nat nat
  | Message nat real liveServerMessage
  | Errored nat js_error
  | Ended nat
  | Captured "real list"

fun act :: "(string \<Rightarrow> js_error + audioBuffer) \<Rightarrow> action \<Rightarrow> world \<Rightarrow> world" where
  "act dec (StartCalled captured) w =
     (if captured then w
      else w\<lparr> component := startEntry (component w),
              frames := frames w @ [frameOf (startEntry (component w))],
              awaiting := awaiting w @ [length (frames w)] \<rparr>)"
| "act dec (MicSettles k env) w =
     (if k \<in> set (awaiting w)
      then inCall k (startResume env) (w\<lparr> awaiting := removeAll k (awaiting w) \<rparr>)
      else w)"
| "act dec StopCalled w = w\<lparr> component := stopLiveConversation (component w) \<rparr>"
| "act dec (Opened k scriptProcessor) w = inCall k (onopen scriptProcessor) w"
| "act dec (Message k now m) w = inCall k (onmessage dec now m) w"
| "act dec (Errored k e) w = inCall k (onerror e) w"
| "act dec (Ended k) w = inCall k onclose w"
| "act dec (Captured inputData) w =
     w\<lparr> component := onaudioprocess inputData (component w) \<rparr>"

definition play :: "(string \<Rightarrow> js_error + audioBuffer) \<Rightarrow> action list \<Rightarrow> world \<Rightarrow> world" where
  "play dec as w = foldl (\<lambda>w' a. act dec a w') w as"

text \<open>An action that lets a call of \<open>startLiveConversation\<close> past its guard.\<close>

fun entersStart :: "action \<Rightarrow> bool" where
  "entersStart (StartCalled captured) = (\<not> captured)"
| "entersStart a = False"

subsection \<open>What is observed of a run\<close>

text \<open>The effects added on the way from one state to a later one.\<close>

definition since :: "live \<Rightarrow> live \<Rightarrow> effect list" where
  "since s s' = drop (length (effects s)) (effects s')"

text \<open>The text a message adds to the input buffer and to the output buffer.\<close>

definition inputDelta :: "liveServerMessage \<Rightarrow> string" where
  "inputDelta m =
     (case serverContent m of
        None \<Rightarrow> []
      | Some sc \<Rightarrow> (case inputTranscription sc of None \<Rightarrow> [] | Some t \<Rightarrow> t))"

definition outputDelta :: "liveServerMessage \<Rightarrow> string" where
  "outputDelta m =
     (case serverContent m of
        None \<Rightarrow> []
      | Some sc \<Rightarrow> (case outputTranscription sc of None \<Rightarrow> [] | Some t \<Rightarrow> t))"

text \<open>The segments handed to the output device: start time and duration of each.\<close>

fun scheduled :: "effect list \<Rightarrow> (real \<times> real) list" where
  "scheduled [] = []"
| "scheduled (SourceStart t b # es) = (t, duration b) # scheduled es"
| "scheduled (e # es) = scheduled es"

text \<open>The frames forwarded to the session.\<close>

fun sends :: "effect list \<Rightarrow> (nat \<times> blob) list" where
  "sends [] = []"
| "sends (SendRealtimeInput p b # es) = (p, b) # sends es"
| "sends (e # es) = sends es"


subsection \<open>The playback invariant\<close>

text \<open>
  A schedule played back to back from clock value \<open>t\<close>: no segment starts before the
  clock, and the clock after a segment is the \<open>+\<close> of its start and its duration.
\<close>

fun backToBack :: "real \<Rightarrow> (real \<times> real) list \<Rightarrow> bool" where
  "backToBack t [] = True"
| "backToBack t (p # ps) = (t \<le> fst p \<and> backToBack (doubleAdd (fst p) (snd p)) ps)"

fun clockAfter :: "real \<Rightarrow> (real \<times> real) list \<Rightarrow> real" where
  "clockAfter t [] = t"
| "clockAfter t (p # ps) = clockAfter (doubleAdd (fst p) (snd p)) ps"

text \<open>A time that is a number and not negative.\<close>

definition timed :: "real \<Rightarrow> bool" where
  "timed t = (0 \<le> t \<and> isDouble t)"

text \<open>
  The invariant of the playback path between two states: the trace has grown, the added
  segments are back to back from the earlier clock, the later clock is not before the end
  of the last of them, their durations are among \<open>D\<close>, and from a clock that is timed the
  starts and the later clock are timed.
\<close>

definition paced :: "real set \<Rightarrow> live \<Rightarrow> live \<Rightarrow> bool" where
  "paced D s s' =
     (\<exists>es. effects s' = effects s @ es
        \<and> backToBack (nextStartTime s) (scheduled es)
        \<and> clockAfter (nextStartTime s) (scheduled es) \<le> nextStartTime s'
        \<and> snd ` set (scheduled es) \<subseteq> D
        \<and> (timed (nextStartTime s) \<longrightarrow>
             timed (nextStartTime s') \<and> (\<forall>p \<in> set (scheduled es). timed (fst p))))"

subsection \<open>Examples\<close>

text \<open>The inbound events of the spec, as messages.\<close>

definition inputTranscriptionDelta :: "string \<Rightarrow> liveServerMessage" where
  "inputTranscriptionDelta t =
     \<lparr> serverContent = Some \<lparr> outputTranscription = None, inputTranscription = Some t,
         turnComplete = False, modelTurn = None \<rparr> \<rparr>"

definition outputTranscriptionDelta :: "string \<Rightarrow> liveServerMessage" where
  "outputTranscriptionDelta t =
     \<lparr> serverContent = Some \<lparr> outputTranscription = Some t, inputTranscription = None,
         turnComplete = False, modelTurn = None \<rparr> \<rparr>"

definition turnCompleteSignal :: liveServerMessage where
  "turnCompleteSignal =
     \<lparr> serverContent = Some \<lparr> outputTranscription = None, inputTranscription = None,
         turnComplete = True, modelTurn = None \<rparr> \<rparr>"

definition audioSegment :: "string \<Rightarrow> liveServerMessage" where
  "audioSegment a =
     \<lparr> serverContent = Some \<lparr> outputTranscription = None, inputTranscription = None,
         turnComplete = False, modelTurn = Some (Content (Some [Part (Some a)])) \<rparr> \<rparr>"

text \<open>A message that carries both deltas and the completion flag.\<close>

definition finalWord :: liveServerMessage where
  "finalWord =
     \<lparr> serverContent = Some \<lparr> outputTranscription = Some ''hi'', inputTranscription = Some ''lo'',
         turnComplete = True, modelTurn = None \<rparr> \<rparr>"

text \<open>
  A decoder for examples: one frame of silence at 24000 Hz for every character of the
  data.
\<close>

definition silence :: "string \<Rightarrow> js_error + audioBuffer" where
  "silence a =
     Inr \<lparr> bufferRate = 24000, channelData = [map (\<lambda>c. 0) a],
           duration = toDouble (real (length a) / 24000) \<rparr>"

text \<open>
  An environment in which everything is granted: a stream with one track, a running
  context for either sample rate, and a session promise.
\<close>

definition granted :: startEnv where
  "granted =
     \<lparr> getUserMedia = Inr \<lparr> tracks = [1] \<rparr>,
       newAudioContext = (\<lambda>rate. Inr \<lparr> ctxId = rate, sampleRate = rate, state = Running \<rparr>),
       connect = Inr 5 \<rparr>"

text \<open>The component after a granted start and the \<open>opened\<close> event.\<close>

definition active :: live where
  "active = onopen 9 (startLiveConversation granted mounted)"




text \<open>The component as mounted, with no call made yet.\<close>

definition idle :: world where
  "idle = \<lparr> component = mounted, frames = [], awaiting = [] \<rparr>"


section \<open>Basic facts\<close>

lemma emit_fields [simp]:
  "isRecording (emit es s) = isRecording s"
  "error (emit es s) = error s"
  "conversationHistory (emit es s) = conversationHistory s"
  "sessionPromiseRef (emit es s) = sessionPromiseRef s"
  "audioResourcesRef (emit es s) = audioResourcesRef s"
  "currentInputTranscription (emit es s) = currentInputTranscription s"
  "currentOutputTranscription (emit es s) = currentOutputTranscription s"
  "nextStartTime (emit es s) = nextStartTime s"
  "locals (emit es s) = locals s"
  "effects (emit es s) = effects s @ es"
  by (simp_all add: emit_def)

lemma emit_Nil [simp]: "emit [] s = s"
  by (simp add: emit_def)

section \<open>The turn aggregator\<close>

lemma transcribe_history:
  "conversationHistory (transcribe m s) =
     (if isTurnComplete m
      then conversationHistory s @ [\<lparr> user = currentInputTranscription s @ inputDelta m,
                                     model = currentOutputTranscription s @ outputDelta m \<rparr>]
      else conversationHistory s)"
  by (simp add: transcribe_def completeTurn_def appendInput_def appendOutput_def
      inputDelta_def outputDelta_def split: option.splits)

lemma transcribe_input:
  "currentInputTranscription (transcribe m s) =
     (if isTurnComplete m then [] else currentInputTranscription s @ inputDelta m)"
  by (simp add: transcribe_def completeTurn_def appendInput_def appendOutput_def
      inputDelta_def split: option.splits)

lemma transcribe_output:
  "currentOutputTranscription (transcribe m s) =
     (if isTurnComplete m then [] else currentOutputTranscription s @ outputDelta m)"
  by (simp add: transcribe_def completeTurn_def appendInput_def appendOutput_def
      outputDelta_def split: option.splits)

lemma transcribe_frame:
  "effects (transcribe m s) = effects s"
  "nextStartTime (transcribe m s) = nextStartTime s"
  "audioResourcesRef (transcribe m s) = audioResourcesRef s"
  "sessionPromiseRef (transcribe m s) = sessionPromiseRef s"
  by (simp_all add: transcribe_def completeTurn_def appendInput_def appendOutput_def
      split: option.splits)

lemma playbackHead_frame:
  "conversationHistory (fst (playbackHead now m s)) = conversationHistory s"
  "currentInputTranscription (fst (playbackHead now m s)) = currentInputTranscription s"
  "currentOutputTranscription (fst (playbackHead now m s)) = currentOutputTranscription s"
  "sessionPromiseRef (fst (playbackHead now m s)) = sessionPromiseRef s"
  "audioResourcesRef (fst (playbackHead now m s)) = audioResourcesRef s"
  by (simp_all add: playbackHead_def split: sum.splits option.splits)

lemma playbackTail_frame:
  "conversationHistory (playbackTail r s) = conversationHistory s"
  "currentInputTranscription (playbackTail r s) = currentInputTranscription s"
  "currentOutputTranscription (playbackTail r s) = currentOutputTranscription s"
  "sessionPromiseRef (playbackTail r s) = sessionPromiseRef s"
  "audioResourcesRef (playbackTail r s) = audioResourcesRef s"
  by (simp_all add: playbackTail_def split: sum.splits)

text \<open>The callback as its head followed, when a decode was started, by its tail.\<close>

lemma onmessage_alt:
  "onmessage dec now m s =
     (case snd (playbackHead now m (transcribe m s)) of
        None \<Rightarrow> fst (playbackHead now m (transcribe m s))
      | Some a \<Rightarrow> playbackTail (dec a) (fst (playbackHead now m (transcribe m s))))"
  by (simp add: onmessage_def split: prod.splits option.splits)

text \<open>The playback part of the callback leaves the history and the buffers alone.\<close>

lemma onmessage_history:
  "conversationHistory (onmessage dec now m s) = conversationHistory (transcribe m s)"
  "currentInputTranscription (onmessage dec now m s) = currentInputTranscription (transcribe m s)"
  "currentOutputTranscription (onmessage dec now m s) = currentOutputTranscription (transcribe m s)"
  by (simp_all add: onmessage_alt playbackHead_frame playbackTail_frame split: option.splits)

lemma processMessages_snoc:
  "processMessages dec (ms @ [nm]) s = onmessage dec (fst nm) (snd nm) (processMessages dec ms s)"
  by (simp add: processMessages_def)

text \<open>While no message completes a turn, the buffers only grow and the history stands.\<close>

lemma accumulate:
  "\<forall>nm \<in> set ms. \<not> isTurnComplete (snd nm) \<Longrightarrow>
   conversationHistory (processMessages dec ms s) = conversationHistory s \<and>
   currentInputTranscription (processMessages dec ms s) =
     currentInputTranscription s @ concat (map (\<lambda>nm. inputDelta (snd nm)) ms) \<and>
   currentOutputTranscription (processMessages dec ms s) =
     currentOutputTranscription s @ concat (map (\<lambda>nm. outputDelta (snd nm)) ms)"
proof (induction ms rule: rev_induct)
  case Nil
  then show ?case by (simp add: processMessages_def)
next
  case (snoc nm ms)
  then show ?case
    by (simp add: processMessages_snoc onmessage_history transcribe_history
        transcribe_input transcribe_output)
qed

text \<open>
  Claim C2. Let any messages that carry input and output transcription deltas in any
  interleaving, none of them completing a turn, be followed by one message with
  \<open>turnComplete\<close>. Then the history gains exactly one turn; its \<open>user\<close> field is what the
  input buffer held (the deltas since the previous completion) followed by the input
  deltas of these messages in arrival order, its \<open>model\<close> field likewise for the output
  deltas; and both buffers are empty afterwards. Right after a completion or a start the
  buffers are empty, so the fields are then exactly the concatenated deltas.
\<close>

theorem turn_aggregation:
  assumes "\<forall>nm \<in> set ms. \<not> isTurnComplete (snd nm)" and "isTurnComplete m"
  shows "conversationHistory (processMessages dec (ms @ [(now, m)]) s) =
           conversationHistory s @
             [\<lparr> user = currentInputTranscription s
                   @ concat (map (\<lambda>nm. inputDelta (snd nm)) (ms @ [(now, m)])),
                 model = currentOutputTranscription s
                   @ concat (map (\<lambda>nm. outputDelta (snd nm)) (ms @ [(now, m)])) \<rparr>]
         \<and> currentInputTranscription (processMessages dec (ms @ [(now, m)]) s) = []
         \<and> currentOutputTranscription (processMessages dec (ms @ [(now, m)]) s) = []"
  using accumulate [OF assms(1), of dec s] assms(2)
  by (simp add: processMessages_snoc onmessage_history transcribe_history
      transcribe_input transcribe_output)

text \<open>Scenario B of the spec: "hel", "lo", "hi", then the completion.\<close>

theorem turn_aggregation_witness:
  "\<not> isTurnComplete (inputTranscriptionDelta ''hel'')
   \<and> \<not> isTurnComplete (inputTranscriptionDelta ''lo'')
   \<and> \<not> isTurnComplete (outputTranscriptionDelta ''hi'')
   \<and> isTurnComplete turnCompleteSignal
   \<and> conversationHistory
        (processMessages silence
          ([(0, inputTranscriptionDelta ''hel''), (1, inputTranscriptionDelta ''lo''),
            (2, outputTranscriptionDelta ''hi'')] @ [(3, turnCompleteSignal)]) mounted)
       = [\<lparr> user = ''hello'', model = ''hi'' \<rparr>]
   \<and> currentInputTranscription
        (processMessages silence
          ([(0, inputTranscriptionDelta ''hel''), (1, inputTranscriptionDelta ''lo''),
            (2, outputTranscriptionDelta ''hi'')] @ [(3, turnCompleteSignal)]) mounted) = []
   \<and> currentOutputTranscription
        (processMessages silence
          ([(0, inputTranscriptionDelta ''hel''), (1, inputTranscriptionDelta ''lo''),
            (2, outputTranscriptionDelta ''hi'')] @ [(3, turnCompleteSignal)]) mounted) = []"
proof -
  have h1: "\<forall>nm \<in> set [(0::real, inputTranscriptionDelta ''hel''),
      (1, inputTranscriptionDelta ''lo''), (2, outputTranscriptionDelta ''hi'')].
      \<not> isTurnComplete (snd nm)"
    by (simp add: isTurnComplete_def inputTranscriptionDelta_def outputTranscriptionDelta_def)
  have h2: "isTurnComplete turnCompleteSignal"
    by (simp add: isTurnComplete_def turnCompleteSignal_def)
  show ?thesis
    using h1 h2 turn_aggregation [OF h1 h2, of silence 3 mounted]
    by (simp add: inputDelta_def outputDelta_def inputTranscriptionDelta_def
        outputTranscriptionDelta_def turnCompleteSignal_def mounted_def)
qed

text \<open>
  Claim C8. A message with \<open>turnComplete\<close> appends a turn whatever the buffers hold: the
  history grows by one exactly when the flag is set. With both buffers empty and no delta
  in the message, the appended turn has empty \<open>user\<close> and \<open>model\<close> strings.
\<close>

theorem empty_turn_recorded:
  "length (conversationHistory (onmessage dec now m s)) =
     length (conversationHistory s) + (if isTurnComplete m then 1 else 0)
   \<and> (isTurnComplete m \<and> inputDelta m = [] \<and> outputDelta m = []
        \<and> currentInputTranscription s = [] \<and> currentOutputTranscription s = []
      \<longrightarrow> conversationHistory (onmessage dec now m s) =
            conversationHistory s @ [\<lparr> user = [], model = [] \<rparr>])"
  by (simp add: onmessage_history transcribe_history)

theorem empty_turn_recorded_witness:
  "isTurnComplete turnCompleteSignal
   \<and> inputDelta turnCompleteSignal = [] \<and> outputDelta turnCompleteSignal = []
   \<and> currentInputTranscription mounted = [] \<and> currentOutputTranscription mounted = []
   \<and> conversationHistory (onmessage silence 0 turnCompleteSignal mounted) =
       [\<lparr> user = [], model = [] \<rparr>]"
proof -
  have h: "isTurnComplete turnCompleteSignal \<and> inputDelta turnCompleteSignal = []
      \<and> outputDelta turnCompleteSignal = []
      \<and> currentInputTranscription mounted = [] \<and> currentOutputTranscription mounted = []"
    by (simp add: isTurnComplete_def inputDelta_def outputDelta_def turnCompleteSignal_def
        mounted_def)
  show ?thesis
    using h empty_turn_recorded [of silence 0 turnCompleteSignal mounted]
    by (simp add: mounted_def)
qed

text \<open>
  Claim C10. When one message carries a transcription delta and \<open>turnComplete\<close>, the delta
  is in the turn that the same message records: the turn's fields are the buffers followed
  by the message's own deltas.
\<close>

theorem completing_message_delta:
  assumes "isTurnComplete m"
  shows "conversationHistory (onmessage dec now m s) =
           conversationHistory s @
             [\<lparr> user = currentInputTranscription s @ inputDelta m,
                 model = currentOutputTranscription s @ outputDelta m \<rparr>]"
  using assms by (simp add: onmessage_history transcribe_history)

theorem completing_message_delta_witness:
  "isTurnComplete finalWord
   \<and> conversationHistory
        (onmessage silence 0 finalWord (mounted\<lparr> currentInputTranscription := ''hel'' \<rparr>))
       = [\<lparr> user = ''hello'', model = ''hi'' \<rparr>]"
proof -
  have h: "isTurnComplete finalWord"
    by (simp add: isTurnComplete_def finalWord_def)
  show ?thesis
    using h completing_message_delta [OF h, of silence 0
        "mounted\<lparr> currentInputTranscription := ''hel'' \<rparr>"]
    by (simp add: inputDelta_def outputDelta_def finalWord_def mounted_def)
qed

section \<open>Rounding\<close>

text \<open>
  Facts about \<open>toDouble\<close>: the exponent of a real is its binade, rounding moves a real by
  at most half a quantum, never past a double on its way, and ends on a double.
\<close>

lemma powi_less: "(2::real) powi m < 2 powi n \<longleftrightarrow> m < n"
  by (metis not_less one_less_numeral_iff power_int_increasing
      power_int_strict_increasing semiring_norm(76) one_le_numeral)

lemma powi_le: "(2::real) powi m \<le> 2 powi n \<longleftrightarrow> m \<le> n"
  using powi_less [of n m] by (simp add: not_less [symmetric])


lemma powi_nat: "0 \<le> L \<Longrightarrow> (2::real) ^ nat L = 2 powi L"
  by (simp add: power_int_def)

lemma powi_split: "(2::real) powi (m + n) = 2 powi m * 2 powi n"
  by (rule power_int_add) simp

lemma exponent_lower: "- 1022 \<le> exponent x"
  by (simp add: exponent_def)

text \<open>Every number is below the top of its binade.\<close>

lemma exponent_upper: "\<bar>x\<bar> < 2 powi (exponent x + 1)"
proof -
  define N where "N = \<lfloor>\<bar>x\<bar> * 2 ^ 1074\<rfloor>"
  define L where "L = bitlen N"
  have N0: "0 \<le> N" by (simp add: N_def)
  have L0: "0 \<le> L" by (simp add: L_def bitlen_nonneg)
  have "N < 2 ^ nat L"
  proof (cases "N = 0")
    case True
    then show ?thesis by simp
  next
    case False
    with N0 have "0 < N" by simp
    from bitlen_bounds [OF this] show ?thesis by (simp add: L_def)
  qed
  then have "N + 1 \<le> 2 ^ nat L" by simp
  then have "real_of_int (N + 1) \<le> real_of_int (2 ^ nat L)" by (simp only: of_int_le_iff)
  then have 1: "real_of_int N + 1 \<le> 2 ^ nat L" by simp
  have "\<bar>x\<bar> * 2 ^ 1074 < real_of_int N + 1"
    unfolding N_def by linarith
  with 1 have "\<bar>x\<bar> * 2 ^ 1074 < 2 ^ nat L" by linarith
  then have "\<bar>x\<bar> < 2 ^ nat L / 2 ^ 1074"
    by (simp add: pos_less_divide_eq)
  also have "(2::real) ^ nat L / 2 ^ 1074 = 2 powi (L - 1074)"
  proof -
    have "(2::real) powi (L - 1074 + 1074) = 2 powi (L - 1074) * 2 powi 1074"
      by (rule powi_split)
    then have "(2::real) powi L = 2 powi (L - 1074) * 2 ^ 1074" by simp
    then show ?thesis using L0 by (simp add: powi_nat)
  qed
  also have "\<dots> \<le> 2 powi (exponent x + 1)"
    by (rule power_int_increasing) (simp_all add: exponent_def L_def N_def)
  finally show ?thesis .
qed

text \<open>A number that is not subnormal is at least the bottom of its binade.\<close>

lemma exponent_bottom:
  assumes "- 1022 < exponent x"
  shows "2 powi exponent x \<le> \<bar>x\<bar>"
proof -
  define N where "N = \<lfloor>\<bar>x\<bar> * 2 ^ 1074\<rfloor>"
  define L where "L = bitlen N"
  from assms have e: "exponent x = L - 1075" and L: "53 < L"
    by (simp_all add: exponent_def L_def N_def max_def split: if_splits)
  from L have "bitlen N \<noteq> 0" by (simp add: L_def)
  then have "0 < N" by (simp add: bitlen_eq_zero_iff)
  from bitlen_bounds [OF this] have "2 ^ nat (L - 1) \<le> N" by (simp add: L_def)
  then have "real_of_int (2 ^ nat (L - 1)) \<le> real_of_int N" by (simp only: of_int_le_iff)
  then have "2 ^ nat (L - 1) \<le> real_of_int N" by simp
  also have "real_of_int N \<le> \<bar>x\<bar> * 2 ^ 1074"
    unfolding N_def by linarith
  finally have "2 ^ nat (L - 1) / 2 ^ 1074 \<le> \<bar>x\<bar>"
    by (simp add: pos_divide_le_eq)
  moreover have "(2::real) ^ nat (L - 1) / 2 ^ 1074 = 2 powi (L - 1075)"
  proof -
    have "(2::real) powi (L - 1075 + 1074) = 2 powi (L - 1075) * 2 powi 1074"
      by (rule powi_split)
    then have "(2::real) powi (L - 1) = 2 powi (L - 1075) * 2 ^ 1074" by simp
    moreover have "(2::real) ^ nat (L - 1) = 2 powi (L - 1)"
      using L by (intro powi_nat) simp
    ultimately show ?thesis by simp
  qed
  ultimately show ?thesis by (simp add: e)
qed

lemma exponent_normal:
  assumes "2 powi (- 1022) \<le> \<bar>x\<bar>"
  shows "2 powi exponent x \<le> \<bar>x\<bar>"
proof (cases "- 1022 < exponent x")
  case True
  then show ?thesis by (rule exponent_bottom)
next
  case False
  with exponent_lower [of x] have "exponent x = - 1022" by simp
  with assms show ?thesis by simp
qed

text \<open>The binade of a number is determined by the powers of two around it.\<close>

lemma exponent_eqI:
  assumes "- 1022 \<le> e" and "2 powi e \<le> \<bar>x\<bar>" and "\<bar>x\<bar> < 2 powi (e + 1)"
  shows "exponent x = e"
proof -
  have "2 powi (- 1022) \<le> (2::real) powi e"
    using assms(1) by (simp only: powi_le)
  with assms(2) have "2 powi (- 1022) \<le> \<bar>x\<bar>" by linarith
  then have "2 powi exponent x \<le> \<bar>x\<bar>" by (rule exponent_normal)
  with assms(3) have "(2::real) powi exponent x < 2 powi (e + 1)" by linarith
  then have 1: "exponent x < e + 1" by (simp add: powi_less)
  from assms(2) exponent_upper [of x] have "(2::real) powi e < 2 powi (exponent x + 1)"
    by linarith
  then have "e < exponent x + 1" by (simp add: powi_less)
  with 1 show ?thesis by simp
qed

lemma exponent_subnormal:
  assumes "\<bar>x\<bar> < 2 powi (- 1022)"
  shows "exponent x = - 1022"
proof (rule ccontr)
  assume "exponent x \<noteq> - 1022"
  with exponent_lower [of x] have 1: "- 1022 < exponent x" by simp
  then have "2 powi exponent x \<le> \<bar>x\<bar>" by (rule exponent_bottom)
  with assms have "(2::real) powi exponent x < 2 powi (- 1022)" by linarith
  then have "exponent x < - 1022" by (simp only: powi_less)
  with 1 show False by simp
qed

lemma exponent_mono:
  assumes "\<bar>x\<bar> \<le> \<bar>y\<bar>"
  shows "exponent x \<le> exponent y"
proof (rule ccontr)
  assume "\<not> exponent x \<le> exponent y"
  then have gt: "exponent y < exponent x" by simp
  with exponent_lower [of y] have "- 1022 < exponent x" by simp
  then have "2 powi exponent x \<le> \<bar>x\<bar>" by (rule exponent_bottom)
  with assms exponent_upper [of y] have "(2::real) powi exponent x < 2 powi (exponent y + 1)"
    by linarith
  then have "exponent x < exponent y + 1" by (simp only: powi_less)
  with gt show False by simp
qed

lemma quantum_pos: "0 < quantum x"
  by (simp add: quantum_def)

lemma quantum_top: "quantum x * 2 ^ 53 = 2 powi (exponent x + 1)"
proof -
  have "(2::real) powi (exponent x - 52 + 53) = 2 powi (exponent x - 52) * 2 powi 53"
    by (rule powi_split)
  moreover have "exponent x - 52 + 53 = exponent x + 1" by simp
  ultimately have "(2::real) powi (exponent x + 1) = 2 powi (exponent x - 52) * 2 powi 53"
    by (simp only:)
  then show ?thesis by (simp add: quantum_def)
qed

lemma quantum_bottom: "quantum x * 2 ^ 52 = 2 powi exponent x"
proof -
  have "(2::real) powi (exponent x - 52 + 52) = 2 powi (exponent x - 52) * 2 powi 52"
    by (rule powi_split)
  then have "(2::real) powi exponent x = 2 powi (exponent x - 52) * 2 powi 52"
    by simp
  then show ?thesis by (simp add: quantum_def)
qed

text \<open>Rounding to the nearest integer, ties to the even one.\<close>

lemma roundHalfEven_ge: "of_int k \<le> y \<Longrightarrow> k \<le> roundHalfEven y"
proof -
  assume "of_int k \<le> y"
  then have "k \<le> \<lfloor>y\<rfloor>" by (simp add: le_floor_iff)
  then show ?thesis by (simp add: roundHalfEven_def Let_def)
qed

lemma roundHalfEven_le: "y \<le> of_int k \<Longrightarrow> roundHalfEven y \<le> k"
proof -
  assume le: "y \<le> of_int k"
  show ?thesis
  proof (cases "y = of_int k")
    case True
    then show ?thesis by (simp add: roundHalfEven_def)
  next
    case False
    with le have "y < of_int k" by simp
    then have "\<lfloor>y\<rfloor> < k" by (simp add: floor_less_iff)
    then show ?thesis by (simp add: roundHalfEven_def Let_def)
  qed
qed

lemma roundHalfEven_of_int [simp]: "roundHalfEven (of_int k) = k"
  by (simp add: roundHalfEven_def)

lemma roundHalfEven_close: "\<bar>of_int (roundHalfEven y) - y\<bar> \<le> 1 / 2"
  unfolding roundHalfEven_def Let_def by (auto; linarith)


lemma toDouble_close: "\<bar>toDouble y - y\<bar> \<le> quantum y / 2"
proof -
  define q where "q = quantum y"
  have q: "0 < q" by (simp add: q_def quantum_pos)
  have "toDouble y - y = q * (of_int (roundHalfEven (y / q)) - y / q)"
    using q by (simp add: toDouble_def q_def algebra_simps)
  then have "\<bar>toDouble y - y\<bar> = q * \<bar>of_int (roundHalfEven (y / q)) - y / q\<bar>"
    using q by (simp add: abs_mult)
  also have "\<dots> \<le> q * (1 / 2)"
    using q roundHalfEven_close [of "y / q"] by (simp only: mult_le_cancel_left_pos)
  finally show ?thesis by (simp add: q_def)
qed

lemma toDouble_nonneg: "0 \<le> y \<Longrightarrow> 0 \<le> toDouble y"
proof -
  assume "0 \<le> y"
  then have "of_int 0 \<le> y / quantum y"
    using quantum_pos [of y] by simp
  then have "0 \<le> roundHalfEven (y / quantum y)" by (rule roundHalfEven_ge)
  then show ?thesis
    using quantum_pos [of y] by (simp add: toDouble_def)
qed

text \<open>A double is not passed when a number above it is rounded.\<close>

lemma toDouble_ge:
  assumes a: "isDouble a" and a0: "0 \<le> a" and le: "a \<le> y"
  shows "a \<le> toDouble y"
proof -
  from a0 le have y0: "0 \<le> y" by simp
  from a0 le have "\<bar>a\<bar> \<le> \<bar>y\<bar>" by simp
  then have mono: "exponent a \<le> exponent y" by (rule exponent_mono)
  show ?thesis
  proof (cases "exponent a = exponent y")
    case True
    then have q: "quantum a = quantum y" by (simp add: quantum_def)
    define n where "n = roundHalfEven (a / quantum y)"
    from a have an: "a = quantum y * of_int n"
      by (simp add: isDouble_def toDouble_def q n_def)
    then have "of_int n = a / quantum y"
      using quantum_pos [of y] by simp
    also have "\<dots> \<le> y / quantum y"
      using le quantum_pos [of y] by (simp add: divide_right_mono)
    finally have "n \<le> roundHalfEven (y / quantum y)" by (rule roundHalfEven_ge)
    then have "real_of_int n \<le> real_of_int (roundHalfEven (y / quantum y))"
      by (simp only: of_int_le_iff)
    then have "quantum y * of_int n \<le> quantum y * of_int (roundHalfEven (y / quantum y))"
      using quantum_pos [of y] by (simp only: mult_le_cancel_left_pos)
    with an show ?thesis by (simp add: toDouble_def)
  next
    case False
    with mono have lt: "exponent a < exponent y" by simp
    with exponent_lower [of a] have "- 1022 < exponent y" by simp
    then have "2 powi exponent y \<le> \<bar>y\<bar>" by (rule exponent_bottom)
    with y0 have "quantum y * 2 ^ 52 \<le> y" using quantum_bottom [of y] by simp
    then have "2 ^ 52 \<le> y / quantum y"
      using quantum_pos [of y] by (simp add: pos_le_divide_eq mult.commute)
    then have "real_of_int (2 ^ 52) \<le> y / quantum y" by simp
    then have "2 ^ 52 \<le> roundHalfEven (y / quantum y)" by (rule roundHalfEven_ge)
    then have "real_of_int (2 ^ 52) \<le> real_of_int (roundHalfEven (y / quantum y))"
      by (simp only: of_int_le_iff)
    then have "quantum y * real_of_int (2 ^ 52) \<le> toDouble y"
      unfolding toDouble_def using quantum_pos [of y] by (simp only: mult_le_cancel_left_pos)
    then have "quantum y * 2 ^ 52 \<le> toDouble y" by simp
    then have 1: "2 powi exponent y \<le> toDouble y" by (simp only: quantum_bottom)
    from lt have "exponent a + 1 \<le> exponent y" by simp
    then have "(2::real) powi (exponent a + 1) \<le> 2 powi exponent y" by (simp only: powi_le)
    with exponent_upper [of a] a0 1 show ?thesis by simp
  qed
qed

text \<open>Rounding a non-negative number gives a double.\<close>

lemma toDouble_isDouble:
  assumes y0: "0 \<le> y"
  shows "isDouble (toDouble y)"
proof -
  define q where "q = quantum y"
  define e where "e = exponent y"
  define n where "n = roundHalfEven (y / q)"
  define z where "z = q * of_int n"
  have q: "0 < q" by (simp add: q_def quantum_pos)
  have qe: "q = 2 powi (e - 52)" by (simp add: q_def e_def quantum_def)
  have top: "q * 2 ^ 53 = 2 powi (e + 1)" unfolding q_def e_def by (rule quantum_top)
  have bottom: "q * 2 ^ 52 = 2 powi e" unfolding q_def e_def by (rule quantum_bottom)
  have e: "- 1022 \<le> e" by (simp add: e_def exponent_lower)
  have z: "toDouble y = z" by (simp add: toDouble_def z_def n_def q_def)
  from y0 q have "of_int 0 \<le> y / q" by simp
  then have n0: "0 \<le> n" unfolding n_def by (rule roundHalfEven_ge)
  with q have z0: "0 \<le> z" by (simp add: z_def)
  from exponent_upper [of y] y0 top have "y < q * 2 ^ 53" by (simp add: e_def)
  then have "y / q < 2 ^ 53" using q by (simp add: pos_divide_less_eq mult.commute)
  then have "y / q \<le> real_of_int (2 ^ 53)" by simp
  then have n53: "n \<le> 2 ^ 53" unfolding n_def by (rule roundHalfEven_le)
  have "toDouble z = z"
  proof (cases "n = 2 ^ 53")
    case True
    then have zt: "z = 2 powi (e + 1)" by (simp add: z_def top [symmetric])
    have "(2::real) powi (e + 1) < 2 powi (e + 1 + 1)" by (simp only: powi_less)
    with zt have "exponent z = e + 1"
      using e by (intro exponent_eqI) simp_all
    then have qz: "quantum z = 2 powi (e - 52 + 1)" by (simp add: quantum_def)
    have "(2::real) powi (e - 52 + 1) = 2 powi (e - 52) * 2 powi 1" by (rule powi_split)
    with qz qe have qz2: "quantum z = q * 2" by simp
    have "z / (q * 2) = real_of_int (2 ^ 52)" using True q by (simp add: z_def)
    then have "z / quantum z = real_of_int (2 ^ 52)" by (simp only: qz2)
    then have r: "roundHalfEven (z / quantum z) = 2 ^ 52" by (simp only: roundHalfEven_of_int)
    have "toDouble z = quantum z * of_int (roundHalfEven (z / quantum z))"
      by (simp add: toDouble_def)
    also have "\<dots> = q * 2 * real_of_int (2 ^ 52)" by (simp only: r, simp only: qz2)
    also have "\<dots> = z" using True by (simp add: z_def)
    finally show ?thesis .
  next
    case False
    with n53 have "n < 2 ^ 53" by simp
    then have "real_of_int n < real_of_int (2 ^ 53)" by (simp only: of_int_less_iff)
    then have "q * real_of_int n < q * real_of_int (2 ^ 53)"
      using q by (simp only: mult_less_cancel_left_pos)
    then have ztop: "z < 2 powi (e + 1)" by (simp add: z_def top [symmetric])
    have ez: "exponent z = e"
    proof (cases "2 powi e \<le> z")
      case True
      with ztop z0 e show ?thesis by (intro exponent_eqI) simp_all
    next
      case below: False
      have "e = - 1022"
      proof (rule ccontr)
        assume "e \<noteq> - 1022"
        with e have "- 1022 < exponent y" by (simp add: e_def)
        then have "2 powi exponent y \<le> \<bar>y\<bar>" by (rule exponent_bottom)
        with y0 bottom have "q * 2 ^ 52 \<le> y" by (simp add: e_def)
        then have "2 ^ 52 \<le> y / q" using q by (simp add: pos_le_divide_eq mult.commute)
        then have "real_of_int (2 ^ 52) \<le> y / q" by simp
        then have "2 ^ 52 \<le> n" unfolding n_def by (rule roundHalfEven_ge)
        then have "real_of_int (2 ^ 52) \<le> real_of_int n" by (simp only: of_int_le_iff)
        then have "q * real_of_int (2 ^ 52) \<le> q * real_of_int n"
          using q by (simp only: mult_le_cancel_left_pos)
        then have "2 powi e \<le> z" by (simp add: z_def bottom [symmetric])
        with below show False by simp
      qed
      moreover from below z0 have "\<bar>z\<bar> < 2 powi e" by simp
      ultimately have "\<bar>z\<bar> < 2 powi (- 1022)" by (simp only:)
      then have "exponent z = - 1022" by (rule exponent_subnormal)
      with \<open>e = - 1022\<close> show ?thesis by simp
    qed
    then have "quantum z = q" by (simp add: quantum_def qe)
    moreover have "z / q = of_int n" using q by (simp add: z_def)
    ultimately show ?thesis by (simp add: toDouble_def z_def)
  qed
  with z show ?thesis by (simp add: isDouble_def)
qed

text \<open>The binade of a number gives its rounding.\<close>

lemma toDouble_eqI:
  assumes "- 1022 \<le> e" and "2 powi e \<le> \<bar>x\<bar>" and "\<bar>x\<bar> < 2 powi (e + 1)"
  shows "toDouble x = 2 powi (e - 52) * of_int (roundHalfEven (x / 2 powi (e - 52)))"
  using exponent_eqI [OF assms] by (simp add: toDouble_def quantum_def)

lemma isDouble_0: "isDouble 0"
  by (simp add: isDouble_def toDouble_def roundHalfEven_def)

lemma isDouble_1: "isDouble 1"
proof -
  have "toDouble 1 = 2 powi (0 - 52) * of_int (roundHalfEven (1 / 2 powi (0 - 52)))"
    by (rule toDouble_eqI) simp_all
  then show ?thesis by (simp add: isDouble_def roundHalfEven_def)
qed

lemma rounded_below:
  "doubleAdd 1 (1152921504606847 / 9223372036854775808) = 4504162577323917 / 4503599627370496"
proof -
  have "toDouble (1 + 1152921504606847 / 9223372036854775808)
      = 2 powi (0 - 52) * of_int (roundHalfEven ((1 + 1152921504606847 / 9223372036854775808) / 2 powi (0 - 52)))"
    by (rule toDouble_eqI) simp_all
  then show ?thesis by (simp add: doubleAdd_def roundHalfEven_def Let_def)
qed

section \<open>The playback clock\<close>

lemma scheduled_append: "scheduled (xs @ ys) = scheduled xs @ scheduled ys"
  by (induction xs rule: scheduled.induct) simp_all

lemma backToBack_append:
  "backToBack t (ps @ qs) = (backToBack t ps \<and> backToBack (clockAfter t ps) qs)"
  by (induction ps arbitrary: t) simp_all

lemma clockAfter_append: "clockAfter t (ps @ qs) = clockAfter (clockAfter t ps) qs"
  by (induction ps arbitrary: t) simp_all

lemma backToBack_mono: "backToBack t ps \<Longrightarrow> t' \<le> t \<Longrightarrow> backToBack t' ps"
  by (cases ps) auto

lemma backToBack_nth:
  "backToBack t ps \<Longrightarrow> Suc i < length ps \<Longrightarrow>
     doubleAdd (fst (ps ! i)) (snd (ps ! i)) \<le> fst (ps ! Suc i)"
proof (induction ps arbitrary: t i)
  case Nil
  then show ?case by simp
next
  case (Cons p ps)
  show ?case
  proof (cases i)
    case 0
    with Cons.prems show ?thesis by (cases ps) auto
  next
    case (Suc j)
    with Cons.prems Cons.IH [of "doubleAdd (fst p) (snd p)" j] show ?thesis by simp
  qed
qed

text \<open>Schedules in which no segment ends before it starts.\<close>

lemma backToBack_lower:
  "backToBack t ps \<Longrightarrow> \<forall>p \<in> set ps. fst p \<le> doubleAdd (fst p) (snd p) \<Longrightarrow>
     \<forall>p \<in> set ps. t \<le> fst p"
proof (induction ps arbitrary: t)
  case Nil
  then show ?case by simp
next
  case (Cons p ps)
  from Cons.prems have "backToBack (doubleAdd (fst p) (snd p)) ps" and "t \<le> fst p"
    and "fst p \<le> doubleAdd (fst p) (snd p)"
    by simp_all
  moreover from Cons.IH [of "doubleAdd (fst p) (snd p)"] Cons.prems
  have "\<forall>q \<in> set ps. doubleAdd (fst p) (snd p) \<le> fst q" by simp
  ultimately show ?case by fastforce
qed

lemma backToBack_sorted:
  "backToBack t ps \<Longrightarrow> \<forall>p \<in> set ps. fst p \<le> doubleAdd (fst p) (snd p) \<Longrightarrow>
     sorted (map fst ps)"
proof (induction ps arbitrary: t)
  case Nil
  then show ?case by simp
next
  case (Cons p ps)
  from Cons.prems have b: "backToBack (doubleAdd (fst p) (snd p)) ps"
    and d: "fst p \<le> doubleAdd (fst p) (snd p)"
    and r: "\<forall>q \<in> set ps. fst q \<le> doubleAdd (fst q) (snd q)" by simp_all
  from backToBack_lower [OF b r] d have "\<forall>q \<in> set ps. fst p \<le> fst q" by fastforce
  with Cons.IH [OF b r] show ?case by simp
qed

lemma clockAfter_ge:
  "backToBack t ps \<Longrightarrow> \<forall>p \<in> set ps. fst p \<le> doubleAdd (fst p) (snd p) \<Longrightarrow>
     t \<le> clockAfter t ps"
proof (induction ps arbitrary: t)
  case Nil
  then show ?case by simp
next
  case (Cons p ps)
  from Cons.prems Cons.IH [of "doubleAdd (fst p) (snd p)"] show ?case by fastforce
qed

lemma clockAfter_mono: "t' \<le> t \<Longrightarrow> clockAfter t' ps \<le> clockAfter t ps"
  by (cases ps) simp_all

lemma since_append: "effects s' = effects s @ es \<Longrightarrow> since s s' = es"
  by (simp add: since_def)

subsection \<open>The clock is a number\<close>

lemma doubleAdd_ge: "timed a \<Longrightarrow> 0 \<le> d \<Longrightarrow> a \<le> doubleAdd a d"
  unfolding timed_def doubleAdd_def by (rule toDouble_ge) simp_all

lemma doubleAdd_timed: "0 \<le> a \<Longrightarrow> 0 \<le> d \<Longrightarrow> timed (doubleAdd a d)"
  by (simp add: timed_def doubleAdd_def toDouble_nonneg toDouble_isDouble)

lemma doubleAdd_close: "a + d - quantum (a + d) / 2 \<le> doubleAdd a d"
  using toDouble_close [of "a + d"] unfolding doubleAdd_def by linarith

lemma timed_max: "timed t \<Longrightarrow> isDouble now \<Longrightarrow> timed (max t now)"
  by (auto simp: timed_def max_def)

subsection \<open>The invariant and its steps\<close>

lemma paced_refl: "paced D s s"
  by (simp add: paced_def)

lemma paced_trans:
  assumes "paced D s s1" and "paced D s1 s2"
  shows "paced D s s2"
proof -
  from assms(1) obtain es where es: "effects s1 = effects s @ es"
    and b1: "backToBack (nextStartTime s) (scheduled es)"
    and c1: "clockAfter (nextStartTime s) (scheduled es) \<le> nextStartTime s1"
    and d1: "snd ` set (scheduled es) \<subseteq> D"
    and t1: "timed (nextStartTime s) \<longrightarrow>
         timed (nextStartTime s1) \<and> (\<forall>p \<in> set (scheduled es). timed (fst p))"
    unfolding paced_def by blast
  from assms(2) obtain fs where fs: "effects s2 = effects s1 @ fs"
    and b2: "backToBack (nextStartTime s1) (scheduled fs)"
    and c2: "clockAfter (nextStartTime s1) (scheduled fs) \<le> nextStartTime s2"
    and d2: "snd ` set (scheduled fs) \<subseteq> D"
    and t2: "timed (nextStartTime s1) \<longrightarrow>
         timed (nextStartTime s2) \<and> (\<forall>p \<in> set (scheduled fs). timed (fst p))"
    unfolding paced_def by blast
  have "backToBack (clockAfter (nextStartTime s) (scheduled es)) (scheduled fs)"
    using b2 c1 by (rule backToBack_mono)
  with b1 have b: "backToBack (nextStartTime s) (scheduled (es @ fs))"
    by (simp add: scheduled_append backToBack_append)
  have "clockAfter (clockAfter (nextStartTime s) (scheduled es)) (scheduled fs)
      \<le> clockAfter (nextStartTime s1) (scheduled fs)"
    using c1 by (rule clockAfter_mono)
  with c2 have c: "clockAfter (nextStartTime s) (scheduled (es @ fs)) \<le> nextStartTime s2"
    by (simp add: scheduled_append clockAfter_append)
  have d: "snd ` set (scheduled (es @ fs)) \<subseteq> D"
    using d1 d2 by (simp add: scheduled_append image_Un)
  have t: "timed (nextStartTime s) \<longrightarrow>
         timed (nextStartTime s2) \<and> (\<forall>p \<in> set (scheduled (es @ fs)). timed (fst p))"
    using t1 t2 by (auto simp: scheduled_append)
  have "effects s2 = effects s @ (es @ fs)"
    using es fs by simp
  with b c d t show ?thesis
    unfolding paced_def by blast
qed

text \<open>Up to the \<open>await\<close> nothing is started, and the clock can only be raised.\<close>

lemma head_paced:
  "isDouble now \<Longrightarrow> paced D s (fst (playbackHead now m (transcribe m s)))"
  by (auto simp: paced_def playbackHead_def transcribe_frame timed_max
      split: sum.splits option.splits)

text \<open>After the \<open>await\<close> the buffer is started at the clock, whatever it is by then.\<close>

lemma tail_paced:
  assumes "\<forall>b. r = Inr b \<longrightarrow> duration b \<in> D" and "\<forall>d \<in> D. 0 \<le> d"
  shows "paced D s (playbackTail r s)"
proof (cases r)
  case (Inl e)
  then show ?thesis by (simp add: paced_def playbackTail_def)
next
  case (Inr b)
  with assms have d: "duration b \<in> D" and d0: "0 \<le> duration b" by auto
  have "timed (nextStartTime s) \<longrightarrow> timed (doubleAdd (nextStartTime s) (duration b))"
    using d0 doubleAdd_timed [of "nextStartTime s" "duration b"] by (simp add: timed_def)
  with Inr d show ?thesis
    by (simp add: paced_def playbackTail_def)
qed

lemma playbackStep_paced:
  assumes "clocked ev" and "\<forall>a b. dec a = Inr b \<longrightarrow> 0 \<le> duration b"
  shows "paced {duration b |a b. dec a = Inr b} (fst c) (fst (playbackStep dec ev c))"
proof (cases c)
  case (Pair s pending)
  show ?thesis
  proof (cases ev)
    case (Arrives now m)
    with assms(1) have "isDouble now" by simp
    have "fst (playbackStep dec ev c) = fst (playbackHead now m (transcribe m s))"
      using Pair Arrives by (simp split: prod.splits option.splits)
    with head_paced [OF \<open>isDouble now\<close>, of "{duration b |a b. dec a = Inr b}" s m]
    show ?thesis
      using Pair by simp
  next
    case (Settles k)
    have "paced {duration b |a b. dec a = Inr b} s (playbackTail (dec (pending ! k)) s)"
      by (rule tail_paced) (use assms(2) in blast)+
    with Pair Settles show ?thesis
      by (simp add: paced_refl)
  qed
qed

lemma playbackRun_snoc:
  "playbackRun dec (evs @ [ev]) c = playbackStep dec ev (playbackRun dec evs c)"
  by (simp add: playbackRun_def)

lemma playbackRun_paced:
  assumes "\<forall>a b. dec a = Inr b \<longrightarrow> 0 \<le> duration b"
  shows "\<forall>ev \<in> set evs. clocked ev \<Longrightarrow>
     paced {duration b |a b. dec a = Inr b} (fst c) (fst (playbackRun dec evs c))"
proof (induction evs rule: rev_induct)
  case Nil
  show ?case by (simp add: playbackRun_def paced_refl)
next
  case (snoc ev evs)
  then have 1: "paced {duration b |a b. dec a = Inr b} (fst c) (fst (playbackRun dec evs c))"
    and ev: "clocked ev" by simp_all
  from 1 playbackStep_paced [OF ev assms] show ?case
    unfolding playbackRun_snoc by (rule paced_trans)
qed

text \<open>What the invariant gives when no duration is negative and the clock is timed.\<close>

lemma paced_schedule:
  assumes "paced D s s'" and "\<forall>d \<in> D. 0 \<le> d" and "timed (nextStartTime s)"
  shows "sorted (map fst (scheduled (since s s')))"
    and "\<forall>i. Suc i < length (scheduled (since s s')) \<longrightarrow>
           doubleAdd (fst (scheduled (since s s') ! i)) (snd (scheduled (since s s') ! i))
             \<le> fst (scheduled (since s s') ! Suc i)"
    and "\<forall>p \<in> set (scheduled (since s s')). nextStartTime s \<le> fst p"
    and "nextStartTime s \<le> nextStartTime s'"
proof -
  from assms(1,3) obtain es where es: "effects s' = effects s @ es"
    and b: "backToBack (nextStartTime s) (scheduled es)"
    and c: "clockAfter (nextStartTime s) (scheduled es) \<le> nextStartTime s'"
    and d: "snd ` set (scheduled es) \<subseteq> D"
    and t: "\<forall>p \<in> set (scheduled es). timed (fst p)"
    unfolding paced_def by blast
  have nonneg: "\<forall>p \<in> set (scheduled es). 0 \<le> snd p"
    using d assms(2) by blast
  with t have adv: "\<forall>p \<in> set (scheduled es). fst p \<le> doubleAdd (fst p) (snd p)"
    by (blast intro: doubleAdd_ge)
  have sch: "scheduled (since s s') = scheduled es"
    using es by (simp add: since_append)
  show "sorted (map fst (scheduled (since s s')))"
    unfolding sch using b adv by (rule backToBack_sorted)
  show "\<forall>i. Suc i < length (scheduled (since s s')) \<longrightarrow>
           doubleAdd (fst (scheduled (since s s') ! i)) (snd (scheduled (since s s') ! i))
             \<le> fst (scheduled (since s s') ! Suc i)"
    unfolding sch using b by (blast intro: backToBack_nth)
  show "\<forall>p \<in> set (scheduled (since s s')). nextStartTime s \<le> fst p"
    unfolding sch using b adv by (rule backToBack_lower)
  show "nextStartTime s \<le> nextStartTime s'"
    using clockAfter_ge [OF b adv] c by simp
qed

text \<open>The callback run without interruption is an arrival and the settling of its decode.\<close>

lemma onmessage_uninterrupted:
  "playbackRun dec [Arrives now m, Settles 0] (s, []) = (onmessage dec now m s, [])"
  by (simp add: playbackRun_def onmessage_def split: prod.splits option.splits)

text \<open>
  Claim C1, as the code has it. Let messages arrive and pending decodes settle in any
  order, with a decoder whose buffers have non-negative durations, device times that are
  numbers, and a clock that is timed at the outset. Take the segments in the order in which
  they are started on the output device, which is the order their decodes settle. Every
  segment starts no earlier than the \<open>+\<close> of its predecessor's start and duration, as a
  number, and so no earlier than their exact sum less half a quantum; the start times are
  non-decreasing; none starts before the clock value the run began with; and the clock
  \<open>nextStartTime\<close> is not lower after the run than before. A message handled without
  interruption is an arrival followed by the settling of its decode; if its audio data
  passes the guard and decodes to \<open>b\<close>, it starts \<open>b\<close> at the maximum of the clock and the
  device time and sets the clock to the \<open>+\<close> of that start and the duration of \<open>b\<close>.
\<close>

theorem playback_schedule:
  assumes "\<forall>a b. dec a = Inr b \<longrightarrow> 0 \<le> duration b"
    and "\<forall>ev \<in> set evs. clocked ev"
    and "timed (nextStartTime s)"
  shows "(let sch = scheduled (since s (fst (playbackRun dec evs (s, pending)))) in
            (\<forall>i. Suc i < length sch \<longrightarrow>
               doubleAdd (fst (sch ! i)) (snd (sch ! i)) \<le> fst (sch ! Suc i)
               \<and> fst (sch ! i) + snd (sch ! i) - quantum (fst (sch ! i) + snd (sch ! i)) / 2
                   \<le> fst (sch ! Suc i))
          \<and> sorted (map fst sch)
          \<and> (\<forall>p \<in> set sch. nextStartTime s \<le> fst p)
          \<and> nextStartTime s \<le> nextStartTime (fst (playbackRun dec evs (s, pending))))
       \<and> playbackRun dec [Arrives now m, Settles 0] (s, []) = (onmessage dec now m s, [])
       \<and> (audioDataOf m = Inr (Some a) \<and> a \<noteq> [] \<and> audioResourcesRef s \<noteq> None
            \<and> dec a = Inr b
          \<longrightarrow> since s (onmessage dec now m s) = [SourceStart (max (nextStartTime s) now) b]
            \<and> nextStartTime (onmessage dec now m s)
                = doubleAdd (max (nextStartTime s) now) (duration b))"
proof -
  have nonneg: "\<forall>d \<in> {duration b |a b. dec a = Inr b}. 0 \<le> d"
    using assms(1) by blast
  have "paced {duration b |a b. dec a = Inr b} s (fst (playbackRun dec evs (s, pending)))"
    using playbackRun_paced [OF assms(1,2), of "(s, pending)"] by simp
  note run = paced_schedule [OF this nonneg assms(3)]
  have near: "\<forall>i. Suc i < length (scheduled (since s (fst (playbackRun dec evs (s, pending)))))
      \<longrightarrow> fst (scheduled (since s (fst (playbackRun dec evs (s, pending)))) ! i)
            + snd (scheduled (since s (fst (playbackRun dec evs (s, pending)))) ! i)
            - quantum (fst (scheduled (since s (fst (playbackRun dec evs (s, pending)))) ! i)
                + snd (scheduled (since s (fst (playbackRun dec evs (s, pending)))) ! i)) / 2
          \<le> fst (scheduled (since s (fst (playbackRun dec evs (s, pending)))) ! Suc i)"
  proof (intro allI impI)
    fix i
    assume "Suc i < length (scheduled (since s (fst (playbackRun dec evs (s, pending)))))"
    with run(2) have "doubleAdd
        (fst (scheduled (since s (fst (playbackRun dec evs (s, pending)))) ! i))
        (snd (scheduled (since s (fst (playbackRun dec evs (s, pending)))) ! i))
      \<le> fst (scheduled (since s (fst (playbackRun dec evs (s, pending)))) ! Suc i)"
      by blast
    with doubleAdd_close
      [of "fst (scheduled (since s (fst (playbackRun dec evs (s, pending)))) ! i)"
          "snd (scheduled (since s (fst (playbackRun dec evs (s, pending)))) ! i)"]
    show "fst (scheduled (since s (fst (playbackRun dec evs (s, pending)))) ! i)
            + snd (scheduled (since s (fst (playbackRun dec evs (s, pending)))) ! i)
            - quantum (fst (scheduled (since s (fst (playbackRun dec evs (s, pending)))) ! i)
                + snd (scheduled (since s (fst (playbackRun dec evs (s, pending)))) ! i)) / 2
          \<le> fst (scheduled (since s (fst (playbackRun dec evs (s, pending)))) ! Suc i)"
      by (rule order_trans)
  qed
  have step: "audioDataOf m = Inr (Some a) \<and> a \<noteq> [] \<and> audioResourcesRef s \<noteq> None
            \<and> dec a = Inr b
          \<longrightarrow> since s (onmessage dec now m s) = [SourceStart (max (nextStartTime s) now) b]
            \<and> nextStartTime (onmessage dec now m s)
                = doubleAdd (max (nextStartTime s) now) (duration b)"
    by (auto simp: onmessage_def playbackHead_def playbackTail_def transcribe_frame since_def)
  show ?thesis
    unfolding Let_def using run near step onmessage_uninterrupted [of dec now m s] by blast
qed

lemma toDouble_3frames: "toDouble (1 / 8000) = 1152921504606847 / 9223372036854775808"
proof -
  have "toDouble (1 / 8000) = 2 powi (- 13 - 52) * of_int (roundHalfEven (1 / 8000 / 2 powi (- 13 - 52)))"
    by (rule toDouble_eqI) simp_all
  then show ?thesis by (simp add: roundHalfEven_def Let_def)
qed

lemma toDouble_6frames: "toDouble (1 / 4000) = 1152921504606847 / 4611686018427387904"
proof -
  have "toDouble (1 / 4000) = 2 powi (- 12 - 52) * of_int (roundHalfEven (1 / 4000 / 2 powi (- 12 - 52)))"
    by (rule toDouble_eqI) simp_all
  then show ?thesis by (simp add: roundHalfEven_def Let_def)
qed

lemma isDouble_3frames: "toDouble (1152921504606847 / 9223372036854775808) = 1152921504606847 / 9223372036854775808"
  using toDouble_isDouble [of "1 / 8000"] by (simp add: isDouble_def toDouble_3frames)

lemma active_playback:
  "nextStartTime active = 0"
  "audioResourcesRef active \<noteq> None"
  by (simp_all add: active_def onopen_def startLiveConversation_def startCall_def startResume_def startEntry_def granted_def mounted_def)

text \<open>
  Two segments, of six frames and of three, arrive at device time 0; the decode of the
  second settles first.
\<close>

lemma reordered_run:
  "since active (fst (playbackRun silence
      [Arrives 0 (audioSegment ''AAAAAA''), Arrives 0 (audioSegment ''AAA''), Settles 1, Settles 0]
      (active, []))) =
     [SourceStart 0 \<lparr> bufferRate = 24000, channelData = [[0, 0, 0]],
        duration = 1152921504606847 / 9223372036854775808 \<rparr>,
      SourceStart (1152921504606847 / 9223372036854775808)
        \<lparr> bufferRate = 24000, channelData = [[0, 0, 0, 0, 0, 0]],
          duration = 1152921504606847 / 4611686018427387904 \<rparr>]"
  by (simp add: playbackRun_def playbackHead_def playbackTail_def
        transcribe_def completeTurn_def appendInput_def appendOutput_def isTurnComplete_def
        audioDataOf_def audioSegment_def active_playback silence_def since_def doubleAdd_def
        toDouble_3frames toDouble_6frames isDouble_3frames)

theorem playback_schedule_witness:
  "timed (nextStartTime active)
   \<and> clocked (Arrives 0 (audioSegment ''AAAAAA'')) \<and> clocked (Settles 1)
   \<and> scheduled (since active (fst (playbackRun silence
        [Arrives 0 (audioSegment ''AAAAAA''), Arrives 0 (audioSegment ''AAA''), Settles 1, Settles 0]
        (active, []))))
      = [(0, 1152921504606847 / 9223372036854775808),
         (1152921504606847 / 9223372036854775808, 1152921504606847 / 4611686018427387904)]
   \<and> doubleAdd 0 (1152921504606847 / 9223372036854775808)
        \<le> 1152921504606847 / 9223372036854775808
   \<and> nextStartTime active \<le> nextStartTime (fst (playbackRun silence
        [Arrives 0 (audioSegment ''AAAAAA''), Arrives 0 (audioSegment ''AAA''), Settles 1, Settles 0]
        (active, [])))
   \<and> playbackRun silence [Arrives 1 (audioSegment ''AAA''), Settles 0] (active, [])
        = (onmessage silence 1 (audioSegment ''AAA'') active, [])
   \<and> since active (onmessage silence 1 (audioSegment ''AAA'') active)
        = [SourceStart 1 \<lparr> bufferRate = 24000, channelData = [[0, 0, 0]],
             duration = 1152921504606847 / 9223372036854775808 \<rparr>]
   \<and> nextStartTime (onmessage silence 1 (audioSegment ''AAA'') active)
        = 4504162577323917 / 4503599627370496"
proof -
  let ?evs = "[Arrives 0 (audioSegment ''AAAAAA''), Arrives 0 (audioSegment ''AAA''),
    Settles 1, Settles 0]"
  let ?b = "\<lparr> bufferRate = 24000, channelData = [[0, 0, 0 :: real]],
    duration = 1152921504606847 / 9223372036854775808 \<rparr>"
  have h1: "\<forall>a b. silence a = Inr b \<longrightarrow> 0 \<le> duration b"
    by (auto simp: silence_def toDouble_nonneg)
  have h2: "\<forall>ev \<in> set ?evs. clocked ev"
    by (simp add: isDouble_0)
  have h3: "timed (nextStartTime active)"
    by (simp add: timed_def active_playback isDouble_0)
  have g: "audioDataOf (audioSegment ''AAA'') = Inr (Some ''AAA'') \<and> ''AAA'' \<noteq> []
      \<and> audioResourcesRef active \<noteq> None \<and> silence ''AAA'' = Inr ?b"
    by (simp add: audioDataOf_def audioSegment_def active_playback silence_def toDouble_3frames)
  have sch: "scheduled (since active (fst (playbackRun silence ?evs (active, []))))
      = [(0, 1152921504606847 / 9223372036854775808),
         (1152921504606847 / 9223372036854775808, 1152921504606847 / 4611686018427387904)]"
    unfolding reordered_run by simp
  note inst = playback_schedule [OF h1 h2 h3, of "[]" 1 "audioSegment ''AAA''" "''AAA''" ?b]
  from inst have pair: "\<forall>i. Suc i < length (scheduled (since active (fst (playbackRun silence ?evs (active, [])))))
      \<longrightarrow> doubleAdd (fst (scheduled (since active (fst (playbackRun silence ?evs (active, [])))) ! i))
            (snd (scheduled (since active (fst (playbackRun silence ?evs (active, [])))) ! i))
          \<le> fst (scheduled (since active (fst (playbackRun silence ?evs (active, [])))) ! Suc i)"
    unfolding Let_def by blast
  from pair [unfolded sch] have first: "doubleAdd 0 (1152921504606847 / 9223372036854775808)
        \<le> 1152921504606847 / 9223372036854775808"
    by simp
  from inst have clock: "nextStartTime active
      \<le> nextStartTime (fst (playbackRun silence ?evs (active, [])))"
    unfolding Let_def by blast
  from inst have whole: "playbackRun silence [Arrives 1 (audioSegment ''AAA''), Settles 0] (active, [])
        = (onmessage silence 1 (audioSegment ''AAA'') active, [])"
    by blast
  from inst g have "since active (onmessage silence 1 (audioSegment ''AAA'') active)
        = [SourceStart (max (nextStartTime active) 1) ?b]
      \<and> nextStartTime (onmessage silence 1 (audioSegment ''AAA'') active)
        = doubleAdd (max (nextStartTime active) 1) (duration ?b)"
    by blast
  then have one: "since active (onmessage silence 1 (audioSegment ''AAA'') active)
        = [SourceStart 1 ?b]"
    and two: "nextStartTime (onmessage silence 1 (audioSegment ''AAA'') active)
        = 4504162577323917 / 4503599627370496"
    by (simp_all add: active_playback rounded_below)
  from h3 sch first clock whole one two show ?thesis
    by (simp add: isDouble_0)
qed

text \<open>
  Claim C1 as the spec states it fails, in two ways. First, the clock advances by the
  \<open>+\<close> of numbers, which rounds: two segments of three frames met at device time 1 are
  started at 1 and at a time below 1 plus the duration of the first. Second, a segment is
  started when its decode settles: of two segments that arrive at device time 0 with the
  clock at 0, six frames and then three, the second to arrive is started first, at 0, and the
  first to arrive is started after it, not at the maximum of the clock and the device time
  it met.
\<close>

theorem playback_rounds_and_reorders:
  "scheduled (since active (processMessages silence
      [(1, audioSegment ''AAA''), (1, audioSegment ''AAA'')] active))
     = [(1, 1152921504606847 / 9223372036854775808),
        (4504162577323917 / 4503599627370496, 1152921504606847 / 9223372036854775808)]
   \<and> (4504162577323917 / 4503599627370496 :: real) < 1 + 1152921504606847 / 9223372036854775808
   \<and> isDouble 1 \<and> isDouble (1152921504606847 / 9223372036854775808)
   \<and> nextStartTime active = 0
   \<and> since active (fst (playbackRun silence
        [Arrives 0 (audioSegment ''AAAAAA''), Arrives 0 (audioSegment ''AAA''), Settles 1, Settles 0]
        (active, [])))
      = [SourceStart 0 \<lparr> bufferRate = 24000, channelData = [[0, 0, 0]],
           duration = 1152921504606847 / 9223372036854775808 \<rparr>,
         SourceStart (1152921504606847 / 9223372036854775808)
           \<lparr> bufferRate = 24000, channelData = [[0, 0, 0, 0, 0, 0]],
             duration = 1152921504606847 / 4611686018427387904 \<rparr>]
   \<and> max (nextStartTime active) 0 < (1152921504606847 / 9223372036854775808 :: real)"
proof -
  have "scheduled (since active (processMessages silence
      [(1, audioSegment ''AAA''), (1, audioSegment ''AAA'')] active))
     = [(1, 1152921504606847 / 9223372036854775808),
        (4504162577323917 / 4503599627370496, 1152921504606847 / 9223372036854775808)]"
    by (simp add: processMessages_def onmessage_def playbackHead_def playbackTail_def
        transcribe_def completeTurn_def appendInput_def appendOutput_def isTurnComplete_def
        audioDataOf_def audioSegment_def active_playback silence_def since_def
        toDouble_3frames rounded_below)
  moreover have "isDouble (1152921504606847 / 9223372036854775808)"
    unfolding isDouble_def by (rule isDouble_3frames)
  ultimately show ?thesis
    using reordered_run isDouble_1 by (simp add: active_playback)
qed

section \<open>Teardown\<close>

lemma stop_effects: "effects (stopLiveConversation s) = effects s @ releases s"
  by (simp add: stopLiveConversation_def releases_def Let_def)

lemma stop_refs:
  "sessionPromiseRef (stopLiveConversation s) = None"
  "audioResourcesRef (stopLiveConversation s) = None"
  "\<not> isRecording (stopLiveConversation s)"
  by (simp_all add: stopLiveConversation_def Let_def)

lemma stop_released: "releases (stopLiveConversation s) = []"
  by (simp add: releases_def stop_refs sessionRelease_def audioRelease_def)

lemma stop_stop: "stopLiveConversation (stopLiveConversation s) = stopLiveConversation s"
  by (simp add: stopLiveConversation_def Let_def sessionRelease_def audioRelease_def)

lemma count_closeUnlessClosed: "count_list (closeUnlessClosed c) e \<le> 1"
  by (simp add: closeUnlessClosed_def)

lemma count_trackStops:
  "count_list (map TrackStop ts) (TrackStop t) = count_list ts t"
  by (induction ts) simp_all

lemma count_trackStops_other:
  "(\<And>t. e \<noteq> TrackStop t) \<Longrightarrow> count_list (map TrackStop ts) e = 0"
  by (induction ts) auto

lemma count_distinct: "distinct xs \<Longrightarrow> count_list xs x \<le> Suc 0"
  by (induction xs) auto

text \<open>
  Claim C4. Stopping twice, or stopping and then receiving the \<open>closed\<close> event, ends in
  the state the first stop ends in: not recording, both refs null. Neither call can throw:
  the body has no throwing statement, and the promises it starts have their rejections
  caught. The two calls together add to the trace what the first call releases and
  nothing more; in that, the session is closed at most once, the processor disconnected at
  most once and, for a stream with distinct tracks and two distinct contexts, each track
  stopped at most once and each context closed at most once.
\<close>

theorem stop_idempotent:
  "stopLiveConversation (stopLiveConversation s) = stopLiveConversation s
   \<and> onclose (stopLiveConversation s) = stopLiveConversation s
   \<and> \<not> isRecording (stopLiveConversation s)
   \<and> sessionPromiseRef (stopLiveConversation s) = None
   \<and> audioResourcesRef (stopLiveConversation s) = None
   \<and> since s (stopLiveConversation (stopLiveConversation s)) = releases s
   \<and> since s (onclose (stopLiveConversation s)) = releases s
   \<and> count_list (releases s) (SessionClose p) \<le> 1
   \<and> count_list (releases s) (ProcessorDisconnect q) \<le> 1
   \<and> ((case audioResourcesRef s of
          None \<Rightarrow> True
        | Some a \<Rightarrow> distinct (tracks (stream a)) \<and> ctxId (inputCtx a) \<noteq> ctxId (outputCtx a))
      \<longrightarrow> count_list (releases s) (TrackStop t) \<le> 1
        \<and> count_list (releases s) (ContextClose c) \<le> 1)"
proof -
  have 1: "count_list (releases s) (SessionClose p) \<le> 1"
    by (simp add: releases_def sessionRelease_def audioRelease_def closeUnlessClosed_def
        count_trackStops_other split: option.splits)
  have 2: "count_list (releases s) (ProcessorDisconnect q) \<le> 1"
    by (simp add: releases_def sessionRelease_def audioRelease_def closeUnlessClosed_def
        count_trackStops_other split: option.splits)
  have 3: "(case audioResourcesRef s of
          None \<Rightarrow> True
        | Some a \<Rightarrow> distinct (tracks (stream a)) \<and> ctxId (inputCtx a) \<noteq> ctxId (outputCtx a))
      \<longrightarrow> count_list (releases s) (TrackStop t) \<le> 1
        \<and> count_list (releases s) (ContextClose c) \<le> 1"
    by (auto simp: releases_def sessionRelease_def audioRelease_def closeUnlessClosed_def
        count_trackStops count_trackStops_other count_distinct split: option.splits)
  show ?thesis
    using 1 2 3
    by (simp add: stop_stop onclose_def stop_refs since_def stop_effects)
qed

text \<open>The active session of the examples, stopped twice, and stopped and then closed.\<close>

theorem stop_idempotent_witness:
  "(case audioResourcesRef active of
      None \<Rightarrow> True
    | Some a \<Rightarrow> distinct (tracks (stream a)) \<and> ctxId (inputCtx a) \<noteq> ctxId (outputCtx a))
   \<and> since active (stopLiveConversation (stopLiveConversation active)) =
     [SessionClose 5, ProcessorDisconnect 9, TrackStop 1, ContextClose 16000, ContextClose 24000]
   \<and> since active (onclose (stopLiveConversation active)) =
     [SessionClose 5, ProcessorDisconnect 9, TrackStop 1, ContextClose 16000, ContextClose 24000]
   \<and> count_list (releases active) (TrackStop 1) \<le> 1
   \<and> count_list (releases active) (ContextClose 16000) \<le> 1"
proof -
  have a: "sessionPromiseRef active = Some 5"
    "audioResourcesRef active = Some \<lparr> inputCtx = \<lparr> ctxId = 16000, sampleRate = 16000, state = Running \<rparr>,
        outputCtx = \<lparr> ctxId = 24000, sampleRate = 24000, state = Running \<rparr>,
        stream = \<lparr> tracks = [1] \<rparr>, processor = 9 \<rparr>"
    by (simp_all add: active_def onopen_def startLiveConversation_def startCall_def startResume_def startEntry_def granted_def mounted_def)
  have h: "(case audioResourcesRef active of
      None \<Rightarrow> True
    | Some a \<Rightarrow> distinct (tracks (stream a)) \<and> ctxId (inputCtx a) \<noteq> ctxId (outputCtx a))"
    by (simp add: a)
  have r: "releases active =
     [SessionClose 5, ProcessorDisconnect 9, TrackStop 1, ContextClose 16000, ContextClose 24000]"
    by (simp add: releases_def a sessionRelease_def audioRelease_def closeUnlessClosed_def)
  from h stop_idempotent [of active 5 9 1 16000]
  have "since active (stopLiveConversation (stopLiveConversation active)) = releases active"
    and "since active (onclose (stopLiveConversation active)) = releases active"
    and "count_list (releases active) (TrackStop 1) \<le> 1"
    and "count_list (releases active) (ContextClose 16000) \<le> 1"
    by blast+
  with h r show ?thesis
    by simp
qed

section \<open>Starting\<close>





section \<open>Calls of startLiveConversation and stops, interleaved\<close>

lemma play_Nil [simp]: "play dec [] w = w"
  by (simp add: play_def)

lemma play_Cons [simp]: "play dec (a # as) w = play dec as (act dec a w)"
  by (simp add: play_def)

lemma enter_fields [simp]:
  "isRecording (enter c s) = isRecording s"
  "error (enter c s) = error s"
  "conversationHistory (enter c s) = conversationHistory s"
  "sessionPromiseRef (enter c s) = sessionPromiseRef s"
  "audioResourcesRef (enter c s) = audioResourcesRef s"
  "effects (enter c s) = effects s"
  "currentInputTranscription (enter c s) = inputText c"
  "currentOutputTranscription (enter c s) = outputText c"
  "nextStartTime (enter c s) = clock c"
  "locals (enter c s) = held c"
  by (simp_all add: enter_def)

lemma enter_frameOf [simp]: "enter (frameOf s) s = s"
  by (simp add: enter_def frameOf_def)

text \<open>
  A call and the settling of its \<open>getUserMedia\<close> with nothing in between are the call run
  without interruption.
\<close>

lemma start_uninterrupted:
  "component (play dec [StartCalled captured, MicSettles (length (frames w)) env] w)
     = startCall captured env (component w)"
  by (simp add: startCall_def inCall_def Let_def)








section \<open>Frames sent after a stop\<close>

lemma sends_append: "sends (xs @ ys) = sends xs @ sends ys"
  by (induction xs rule: sends.induct) simp_all

lemma sends_releases: "sends (releases s) = []"
proof -
  have "sends (map TrackStop ts) = []" for ts
    by (induction ts) simp_all
  then show ?thesis
    by (simp add: releases_def sessionRelease_def audioRelease_def closeUnlessClosed_def
        sends_append split: option.splits)
qed

lemma stop_sends: "sends (effects (stopLiveConversation s)) = sends (effects s)"
  by (simp add: stop_effects sends_append sends_releases)

lemma onmessage_sends:
  "sends (effects (onmessage dec now m s)) = sends (effects s)"
  "sessionPromiseRef (onmessage dec now m s) = sessionPromiseRef s"
  by (auto simp: onmessage_def playbackHead_def playbackTail_def transcribe_frame sends_append
      split: sum.splits option.splits)

text \<open>
  The mechanism of lines 23 and 89: a piece that is neither an entry into
  \<open>startLiveConversation\<close> nor the resumption of a suspended call leaves a null
  \<open>sessionPromiseRef\<close> null and sends nothing.
\<close>

lemma inCall_silent:
  assumes "sessionPromiseRef (component w) = None"
    and "\<And>s. sessionPromiseRef s = None \<Longrightarrow>
           sessionPromiseRef (f s) = None \<and> sends (effects (f s)) = sends (effects s)"
  shows "sessionPromiseRef (component (inCall k f w)) = None
       \<and> sends (effects (component (inCall k f w))) = sends (effects (component w))
       \<and> awaiting (inCall k f w) = awaiting w"
proof (cases "k < length (frames w)")
  case True
  from assms(2) [of "enter (frames w ! k) (component w)"] assms(1) True show ?thesis
    by (simp add: inCall_def Let_def)
next
  case False
  with assms(1) show ?thesis by (simp add: inCall_def)
qed

lemma act_silent:
  assumes "\<not> entersStart a" and "awaiting w = []"
    and "sessionPromiseRef (component w) = None"
  shows "sessionPromiseRef (component (act dec a w)) = None
       \<and> sends (effects (component (act dec a w))) = sends (effects (component w))
       \<and> awaiting (act dec a w) = []"
proof (cases a)
  case (StartCalled captured)
  with assms show ?thesis by simp
next
  case (MicSettles k env)
  with assms show ?thesis by simp
next
  case StopCalled
  with assms show ?thesis by (simp add: stop_refs stop_sends)
next
  case (Opened k p)
  have "sessionPromiseRef (component (inCall k (onopen p) w)) = None
       \<and> sends (effects (component (inCall k (onopen p) w))) = sends (effects (component w))
       \<and> awaiting (inCall k (onopen p) w) = awaiting w"
    using assms(3) by (rule inCall_silent) (simp add: onopen_def split: option.splits)
  with Opened assms(2) show ?thesis by simp
next
  case (Message k now m)
  have "sessionPromiseRef (component (inCall k (onmessage dec now m) w)) = None
       \<and> sends (effects (component (inCall k (onmessage dec now m) w)))
           = sends (effects (component w))
       \<and> awaiting (inCall k (onmessage dec now m) w) = awaiting w"
    using assms(3) by (rule inCall_silent) (simp add: onmessage_sends)
  with Message assms(2) show ?thesis by simp
next
  case (Errored k e)
  have "sessionPromiseRef (component (inCall k (onerror e) w)) = None
       \<and> sends (effects (component (inCall k (onerror e) w))) = sends (effects (component w))
       \<and> awaiting (inCall k (onerror e) w) = awaiting w"
    using assms(3)
    by (rule inCall_silent) (simp add: onerror_def stop_refs stop_sends sends_append)
  with Errored assms(2) show ?thesis by simp
next
  case (Ended k)
  have "sessionPromiseRef (component (inCall k onclose w)) = None
       \<and> sends (effects (component (inCall k onclose w))) = sends (effects (component w))
       \<and> awaiting (inCall k onclose w) = awaiting w"
    using assms(3) by (rule inCall_silent) (simp add: onclose_def stop_refs stop_sends)
  with Ended assms(2) show ?thesis by simp
next
  case (Captured inputData)
  with assms show ?thesis by (simp add: onaudioprocess_def)
qed

text \<open>
  So after a stop, as long as no call of \<open>startLiveConversation\<close> is suspended and none
  gets past its guard, no frame is sent.
\<close>

lemma silent_without_start:
  "\<forall>a \<in> set as. \<not> entersStart a \<Longrightarrow> awaiting w = [] \<Longrightarrow>
   sessionPromiseRef (component w) = None \<Longrightarrow>
   sessionPromiseRef (component (play dec as w)) = None
   \<and> sends (effects (component (play dec as w))) = sends (effects (component w))"
proof (induction as arbitrary: w)
  case Nil
  then show ?case by simp
next
  case (Cons a as)
  from Cons.prems have a: "\<not> entersStart a" and rest: "\<forall>a \<in> set as. \<not> entersStart a"
    by simp_all
  from act_silent [OF a Cons.prems(2,3), of dec]
  have 1: "sessionPromiseRef (component (act dec a w)) = None"
    and 2: "sends (effects (component (act dec a w))) = sends (effects (component w))"
    and 3: "awaiting (act dec a w) = []" by simp_all
  from Cons.IH [OF rest 3 1] 2 show ?case by simp
qed

text \<open>
  Claim C9 fails in the code. The stop works on what the refs hold when it is called, and a
  call of \<open>startLiveConversation\<close> that is suspended at \<open>await getUserMedia\<close> has stored
  nothing there yet. The call is made, the component is stopped before the microphone
  request settles, and the stop has completed with \<open>sessionPromiseRef\<close> null and
  \<open>isRecording\<close> cleared. Then the request is granted: the call resumes, connects and
  stores the session promise (line 64), the session opens and wires the processor, and the
  next capture callback forwards its frame to session promise 5, with \<open>isRecording\<close> still
  cleared.
\<close>

theorem send_after_stop:
  "sessionPromiseRef (component (play silence [StartCalled False, StopCalled] idle)) = None
   \<and> \<not> isRecording (component (play silence [StartCalled False, StopCalled] idle))
   \<and> sends (effects (component (play silence [StartCalled False, StopCalled] idle))) = []
   \<and> sessionPromiseRef (component (play silence
        [StartCalled False, StopCalled, MicSettles 0 granted] idle)) = Some 5
   \<and> sends (effects (component (play silence
        [StartCalled False, StopCalled, MicSettles 0 granted, Opened 0 9, Captured [0]] idle)))
       = [(5, pcmBlob [0])]
   \<and> \<not> isRecording (component (play silence
        [StartCalled False, StopCalled, MicSettles 0 granted, Opened 0 9, Captured [0]] idle))"
  by (simp add: idle_def mounted_def inCall_def Let_def startEntry_def startResume_def
      stopLiveConversation_def sessionRelease_def audioRelease_def granted_def onopen_def
      onaudioprocess_def frameOf_def enter_def emit_def)

section \<open>The codec: wrap-around and round trip\<close>

text \<open>The element read back from the \<open>Int16Array\<close>.\<close>

lemma sint_toInt16:
  "sint (toInt16 x) = (jsTruncate x + 32768) mod 65536 - 32768"
  by (simp add: toInt16_def sint_sbintrunc' signed_take_bit_eq_take_bit_shift take_bit_eq_mod)

lemma wrap_signed:
  fixes k :: int
  shows "(k + 32768) mod 65536 - 32768 = wrapInt16 k"
proof -
  define u where "u = k mod 65536"
  have u: "0 \<le> u" "u < 65536"
    by (simp_all add: u_def)
  have shift: "(k + 32768) mod 65536 = (u + 32768) mod 65536"
    unfolding u_def by (simp add: mod_add_left_eq)
  show ?thesis
  proof (cases "u < 32768")
    case True
    with u have "(u + 32768) mod 65536 = u + 32768" by simp
    with True shift show ?thesis by (simp add: u_def wrapInt16_def)
  next
    case False
    have "u + 32768 = u - 32768 + 65536" by simp
    then have "(u + 32768) mod 65536 = (u - 32768 + 65536) mod 65536" by (simp only:)
    also have "\<dots> = (u - 32768) mod 65536" by (rule mod_add_self2)
    also from False u have "\<dots> = u - 32768" by simp
    finally have "(u + 32768) mod 65536 = u - 32768" .
    with False shift show ?thesis by (simp add: u_def wrapInt16_def)
  qed
qed

text \<open>
  Claim C7. The encoding does not clamp. For a sample \<open>x\<close> let \<open>y = x * 32768\<close>. The
  element stored is \<open>y\<close> with its fraction dropped, which is \<open>\<lfloor>y\<rfloor>\<close> for \<open>y\<close> from 0 on
  and \<open>- \<lfloor>- y\<rfloor>\<close> below 0, reduced modulo \<open>2^16\<close> and read as a signed 16-bit value:
  \<open>u\<close> below 32768 and \<open>u - 65536\<close> from there on. The sample 1.0 becomes -32768, not
  32767; 0.5 becomes 16384; -0.3 becomes -9830, its scaled value -9830.4 cut towards zero;
  2.5 and -1.5 wrap to 16384; and the largest sample below 1.0 that a float32 holds
  becomes 32767.
\<close>

theorem int16_wraparound:
  "map sint (pcm16 inputData) =
     map (\<lambda>x. let k = (if x * 32768 < 0 then - \<lfloor>- (x * 32768)\<rfloor> else \<lfloor>x * 32768\<rfloor>);
                  u = k mod 65536
              in if u < 32768 then u else u - 65536) inputData
   \<and> map sint (pcm16 [1]) = [- 32768]
   \<and> map sint (pcm16 [1]) \<noteq> [32767]
   \<and> map sint (pcm16 [1 / 2, - 3 / 10, 5 / 2, - 3 / 2, 16777215 / 16777216, - 1])
       = [16384, - 9830, 16384, 16384, 32767, - 32768]"
proof -
  have "sint (toInt16 (x * 32768)) =
      (let k = (if x * 32768 < 0 then - \<lfloor>- (x * 32768)\<rfloor> else \<lfloor>x * 32768\<rfloor>);
           u = k mod 65536
       in if u < 32768 then u else u - 65536)" for x :: real
    by (simp add: sint_toInt16 wrap_signed wrapInt16_def jsTruncate_def ceiling_def Let_def)
  then have "map sint (pcm16 inputData) =
     map (\<lambda>x. let k = (if x * 32768 < 0 then - \<lfloor>- (x * 32768)\<rfloor> else \<lfloor>x * 32768\<rfloor>);
                  u = k mod 65536
              in if u < 32768 then u else u - 65536) inputData"
    by (simp add: pcm16_def)
  moreover have "map sint (pcm16 [1]) = [- 32768]"
    by (simp add: pcm16_def sint_toInt16 jsTruncate_def)
  moreover have "map sint (pcm16 [1 / 2, - 3 / 10, 5 / 2, - 3 / 2, 16777215 / 16777216, - 1])
       = [16384, - 9830, 16384, 16384, 32767, - 32768]"
    by (simp add: pcm16_def sint_toInt16 jsTruncate_def)
  ultimately show ?thesis by simp
qed

subsection \<open>Bytes and base64 are read back as written\<close>

lemma int16_bytes_roundtrip:
  "ucast (ucast w :: 8 word) OR push_bit 8 (ucast (ucast (drop_bit 8 w) :: 8 word)) = (w :: 16 word)"
  by (rule bit_word_eqI) (auto simp: bit_simps)

lemma int16View_uint8View: "int16View (uint8View ws) = Inr ws"
  by (induction ws) (simp_all add: uint8View_def int16Bytes_def int16_bytes_roundtrip)

lemma base64Alphabet_distinct: "distinct base64Alphabet"
  by (simp add: base64Alphabet_def)

lemma base64Alphabet_length: "length base64Alphabet = 64"
  by (simp add: base64Alphabet_def)

lemma pad_not_in_alphabet: "CHR ''='' \<notin> set base64Alphabet"
  by (simp add: base64Alphabet_def)

lemma indexOf_nth: "distinct xs \<Longrightarrow> n < length xs \<Longrightarrow> indexOf (xs ! n) xs = Some n"
proof (induction xs arbitrary: n)
  case Nil
  then show ?case by simp
next
  case (Cons a xs)
  then show ?case by (cases n) auto
qed

lemma base64Value_Char: "base64Value (base64Char n) = Some (n mod 64)"
  by (simp add: base64Value_def base64Char_def indexOf_nth base64Alphabet_distinct
      base64Alphabet_length)

lemma base64Char_not_pad: "base64Char n \<noteq> CHR ''=''"
proof -
  have "base64Char n \<in> set base64Alphabet"
    by (simp add: base64Char_def base64Alphabet_length)
  with pad_not_in_alphabet show ?thesis by metis
qed

lemma byte_of_unat: "(of_nat (unat a) :: 8 word) = a"
  by simp

lemma sextet_first: "(a::nat) < 256 \<Longrightarrow> a div 4 mod 64 = a div 4"
  by simp

lemma sextet_second: "(b::nat) < 256 \<Longrightarrow> (a mod 4 * 16 + b div 16) mod 64 = a mod 4 * 16 + b div 16"
proof -
  assume "b < 256"
  then have "b div 16 < 16" by simp
  moreover have "a mod 4 < 4" by simp
  ultimately have "a mod 4 * 16 + b div 16 < 64" by linarith
  then show ?thesis by simp
qed

lemma sextet_third: "(c::nat) < 256 \<Longrightarrow> (b mod 16 * 4 + c div 64) mod 64 = b mod 16 * 4 + c div 64"
proof -
  assume "c < 256"
  then have "c div 64 < 4" by simp
  moreover have "b mod 16 < 16" by simp
  ultimately have "b mod 16 * 4 + c div 64 < 64" by linarith
  then show ?thesis by simp
qed

lemma sextet_second_pad: "(a::nat) mod 4 * 16 mod 64 = a mod 4 * 16"
proof -
  have "a mod 4 < 4" by simp
  then have "a mod 4 * 16 < 64" by linarith
  then show ?thesis by simp
qed

lemma sextet_third_pad: "(b::nat) mod 16 * 4 mod 64 = b mod 16 * 4"
proof -
  have "b mod 16 < 16" by simp
  then have "b mod 16 * 4 < 64" by linarith
  then show ?thesis by simp
qed

lemma octet_first: "(b::nat) < 256 \<Longrightarrow> a div 4 * 4 + (a mod 4 * 16 + b div 16) div 16 = a"
proof -
  assume "b < 256"
  then have "b div 16 < 16" by simp
  then have "(a mod 4 * 16 + b div 16) div 16 = a mod 4" by simp
  then show ?thesis by simp
qed

lemma octet_second: "(b::nat) < 256 \<Longrightarrow> c < 256 \<Longrightarrow>
   (a mod 4 * 16 + b div 16) mod 16 * 16 + (b mod 16 * 4 + c div 64) div 4 = b"
proof -
  assume b: "b < 256" and c: "c < 256"
  from b have "b div 16 < 16" by simp
  then have 1: "(a mod 4 * 16 + b div 16) mod 16 = b div 16" by simp
  from c have "c div 64 < 4" by simp
  then have 2: "(b mod 16 * 4 + c div 64) div 4 = b mod 16" by simp
  show ?thesis unfolding 1 2 by simp
qed

lemma octet_third: "(c::nat) < 256 \<Longrightarrow> (b mod 16 * 4 + c div 64) mod 4 * 64 + c mod 64 = c"
proof -
  assume c: "c < 256"
  then have "c div 64 < 4" by simp
  then have 1: "(b mod 16 * 4 + c div 64) mod 4 = c div 64" by simp
  show ?thesis unfolding 1 by simp
qed

lemma octet_first_pad: "(a::nat) div 4 * 4 + a mod 4 * 16 div 16 = a"
  by simp

lemma octet_second_pad: "(b::nat) < 256 \<Longrightarrow> (a mod 4 * 16 + b div 16) mod 16 * 16 + b mod 16 * 4 div 4 = b"
proof -
  assume b: "b < 256"
  from b have "b div 16 < 16" by simp
  then have 1: "(a mod 4 * 16 + b div 16) mod 16 = b div 16" by simp
  show ?thesis unfolding 1 by simp
qed

lemma byte_bound: "unat (a :: 8 word) < 256"
  using unsigned_less [of a, where ?'a = nat] by simp

lemma regroup:
  fixes a b c :: "8 word"
  shows "(of_nat (unat a div 4 * 4 + (unat a mod 4 * 16 + unat b div 16) div 16) :: 8 word) = a"
    and "(of_nat ((unat a mod 4 * 16 + unat b div 16) mod 16 * 16
            + (unat b mod 16 * 4 + unat c div 64) div 4) :: 8 word) = b"
    and "(of_nat ((unat b mod 16 * 4 + unat c div 64) mod 4 * 64 + unat c mod 64) :: 8 word) = c"
    and "(of_nat (unat a div 4 * 4 + unat a mod 4 * 16 div 16) :: 8 word) = a"
    and "(of_nat ((unat a mod 4 * 16 + unat b div 16) mod 16 * 16 + unat b mod 16 * 4 div 4) :: 8 word) = b"
  by (simp_all only: octet_first octet_second octet_third octet_first_pad octet_second_pad byte_bound of_nat_unat ucast_id)

lemma sextets:
  fixes a b c :: "8 word"
  shows "unat a div 4 mod 64 = unat a div 4"
    and "(unat a mod 4 * 16 + unat b div 16) mod 64 = unat a mod 4 * 16 + unat b div 16"
    and "(unat b mod 16 * 4 + unat c div 64) mod 64 = unat b mod 16 * 4 + unat c div 64"
    and "unat c mod 64 mod 64 = unat c mod 64"
    and "unat a mod 4 * 16 mod 64 = unat a mod 4 * 16"
    and "unat b mod 16 * 4 mod 64 = unat b mod 16 * 4"
  by (simp_all only: sextet_first sextet_second sextet_third sextet_second_pad sextet_third_pad byte_bound mod_mod_trivial)

lemma decode_group3:
  "decode (base64Char (unat a div 4) # base64Char (unat a mod 4 * 16 + unat b div 16)
      # base64Char (unat b mod 16 * 4 + unat c div 64) # base64Char (unat c mod 64) # cs)
   = (case decode cs of Inl e \<Rightarrow> Inl e | Inr bs \<Rightarrow> Inr (a # b # c # bs))"
  by (simp only: decode.simps base64Value_Char sextets regroup base64Char_not_pad
      prod.case option.case simp_thms if_False)

lemma decode_group2:
  "decode [base64Char (unat a div 4), base64Char (unat a mod 4 * 16 + unat b div 16),
      base64Char (unat b mod 16 * 4), CHR ''='']
   = Inr [a, b]"
  by (simp only: decode.simps base64Value_Char sextets regroup base64Char_not_pad
      prod.case option.case simp_thms if_False if_True)

lemma decode_group1:
  "decode [base64Char (unat a div 4), base64Char (unat a mod 4 * 16), CHR ''='', CHR ''='']
   = Inr [a]"
  by (simp only: decode.simps base64Value_Char sextets regroup base64Char_not_pad
      prod.case option.case simp_thms if_False if_True)

lemma decode_encode: "decode (encode bs) = Inr bs"
proof (induction bs rule: encode.induct)
  case (1 a b c bs)
  then show ?case
    by (simp only: encode.simps append_Cons append_Nil decode_group3 sum.case)
next
  case (2 a b)
  show ?case
    by (simp only: encode.simps decode_group2)
next
  case (3 a)
  show ?case
    by (simp only: encode.simps decode_group1)
next
  case 4
  show ?case by simp
qed

subsection \<open>The round trip\<close>

lemma decodeAudioData_mono:
  "decodeAudioData (uint8View ws) rate (Suc 0) =
     Inr \<lparr> bufferRate = rate,
           channelData = [map (\<lambda>w. real_of_int (sint w) / 32768) ws],
           duration = real (length ws) / real rate \<rparr>"
proof -
  have "map (\<lambda>i. real_of_int (sint (ws ! i)) / 32768) [0..<length ws] =
      map (\<lambda>w. real_of_int (sint w) / 32768) ws"
    by (rule nth_equalityI) simp_all
  then show ?thesis
    by (simp add: decodeAudioData_def int16View_uint8View del: of_int_sint)
qed

text \<open>What comes back of any frame: the wrapped 16-bit value of each sample over 32768.\<close>

lemma roundtrip_any:
  "decodeSegment (data (pcmBlob samples)) rate (Suc 0) =
     Inr \<lparr> bufferRate = rate,
           channelData = [map (\<lambda>x. real_of_int (sint (toInt16 (x * 32768))) / 32768) samples],
           duration = real (length samples) / real rate \<rparr>"
  by (simp add: decodeSegment_def pcmBlob_def decode_encode decodeAudioData_mono pcm16_def
      comp_def del: of_int_sint)

lemma jsTruncate_close: "\<bar>real_of_int (jsTruncate y) - y\<bar> < 1"
  unfolding jsTruncate_def by (auto; linarith)

lemma jsTruncate_range: "- 32769 < y \<Longrightarrow> y < 32768 \<Longrightarrow>
    - 32768 \<le> jsTruncate y \<and> jsTruncate y < 32768"
  unfolding jsTruncate_def by (auto; linarith)

lemma sint_toInt16_in_range:
  assumes "- 1 - 1 / 32768 < x" and "x < 1"
  shows "sint (toInt16 (x * 32768)) = jsTruncate (x * 32768)"
proof -
  from assms have "- 32769 < x * 32768" and "x * 32768 < 32768" by simp_all
  then have "- 32768 \<le> jsTruncate (x * 32768) \<and> jsTruncate (x * 32768) < 32768"
    by (rule jsTruncate_range)
  then show ?thesis
    by (simp add: sint_toInt16)
qed

lemma quantized_close:
  "\<bar>real_of_int (jsTruncate (x * 32768)) / 32768 - x\<bar> < 1 / 32768"
proof -
  have "\<bar>real_of_int (jsTruncate (x * 32768)) - x * 32768\<bar> < 1"
    by (rule jsTruncate_close)
  then have "\<bar>(real_of_int (jsTruncate (x * 32768)) - x * 32768) / 32768\<bar> < 1 / 32768"
    by (simp add: divide_less_cancel)
  moreover have "(real_of_int (jsTruncate (x * 32768)) - x * 32768) / 32768
      = real_of_int (jsTruncate (x * 32768)) / 32768 - x"
    by (simp add: diff_divide_distrib)
  ultimately show ?thesis by simp
qed

text \<open>
  Claim C3, as the code has it. For samples strictly between \<open>-1 - 1/32768\<close> and \<open>1\<close>
  (so for every sample from \<open>-1\<close> up to, not including, \<open>1\<close>), decoding the encoded mono
  frame gives one channel with, for each sample, its scaled value truncated towards zero
  over 32768, which is less than \<open>1/32768\<close> away from the sample.
\<close>

theorem roundtrip_in_range:
  assumes "\<forall>x \<in> set samples. - 1 - 1 / 32768 < x \<and> x < 1"
  shows "decodeSegment (data (pcmBlob samples)) rate 1 =
           Inr \<lparr> bufferRate = rate,
                 channelData = [map (\<lambda>x. real_of_int (jsTruncate (x * 32768)) / 32768) samples],
                 duration = real (length samples) / real rate \<rparr>
         \<and> (\<forall>x \<in> set samples. \<bar>real_of_int (jsTruncate (x * 32768)) / 32768 - x\<bar> < 1 / 32768)"
proof -
  have "map (\<lambda>x. real_of_int (sint (toInt16 (x * 32768))) / 32768) samples
      = map (\<lambda>x. real_of_int (jsTruncate (x * 32768)) / 32768) samples"
  proof (rule map_cong [OF refl])
    fix x assume "x \<in> set samples"
    with assms have "- 1 - 1 / 32768 < x" and "x < 1" by auto
    then show "real_of_int (sint (toInt16 (x * 32768))) / 32768
        = real_of_int (jsTruncate (x * 32768)) / 32768"
      by (simp only: sint_toInt16_in_range)
  qed
  with roundtrip_any [of samples rate]
  have "decodeSegment (data (pcmBlob samples)) rate (Suc 0) =
           Inr \<lparr> bufferRate = rate,
                 channelData = [map (\<lambda>x. real_of_int (jsTruncate (x * 32768)) / 32768) samples],
                 duration = real (length samples) / real rate \<rparr>"
    by (simp only:)
  moreover have "\<forall>x \<in> set samples.
      \<bar>real_of_int (jsTruncate (x * 32768)) / 32768 - x\<bar> < 1 / 32768"
    using quantized_close by blast
  ultimately show ?thesis
    by (simp only: One_nat_def simp_thms)
qed

lemma full_scale_wraps: "sint (toInt16 (1 * 32768)) = - 32768"
  by (simp add: sint_toInt16 jsTruncate_def)

text \<open>
  Claim C3 as the spec states it fails for a sample outside that range: the sample 1.0
  comes back as -1.0, two units away.
\<close>

theorem roundtrip_full_scale:
  "decodeSegment (data (pcmBlob [1])) 24000 1 =
     Inr \<lparr> bufferRate = 24000, channelData = [[- 1]], duration = 1 / 24000 \<rparr>
   \<and> \<not> \<bar>(- 1 :: real) - 1\<bar> \<le> 1 / 32768"
proof -
  from roundtrip_any [of "[1]" 24000]
  have "decodeSegment (data (pcmBlob [1])) 24000 (Suc 0) =
     Inr \<lparr> bufferRate = 24000, channelData = [[real_of_int (- 32768) / 32768]],
           duration = real (length [1 :: real]) / real 24000 \<rparr>"
    by (simp only: list.map full_scale_wraps)
  then show ?thesis by simp
qed

theorem roundtrip_in_range_witness:
  "- 1 - 1 / 32768 < (1 / 2 :: real) \<and> (1 / 2 :: real) < 1
   \<and> - 1 - 1 / 32768 < (- 1 :: real) \<and> (- 1 :: real) < 1
   \<and> - 1 - 1 / 32768 < (3 / 65536 :: real) \<and> (3 / 65536 :: real) < 1
   \<and> decodeSegment (data (pcmBlob [1 / 2, - 1, 3 / 65536])) 24000 1 =
       Inr \<lparr> bufferRate = 24000, channelData = [[1 / 2, - 1, 1 / 32768]], duration = 1 / 8000 \<rparr>
   \<and> \<bar>(1 / 32768 :: real) - 3 / 65536\<bar> < 1 / 32768"
proof -
  have h: "\<forall>x \<in> set [1 / 2, - 1, 3 / 65536 :: real]. - 1 - 1 / 32768 < x \<and> x < 1"
    by simp
  show ?thesis
    using roundtrip_in_range [OF h, of 24000]
    by (simp add: jsTruncate_def)
qed

end
